theory Spec2Isabelle
  imports Main "HOL-Library.Word" "HOL-Library.Signed_Division" "HOL-Library.Multiset"
begin

unbundle bit_operations_syntax

text \<open>
  A shallow embedding of the CAN-FD transport of the gateway board firmware
  (\<open>Core/Src/can_bus.c\<close>: DLC codec, RX ring, fragmentation and reassembly) and of the
  time-sync arithmetic (\<open>Core/Src/telemetry.c\<close>), followed by the properties proved about
  them. Machine integers are words of the width the C code gives them; global variables
  are fields of state records that the functions take and return; byte arrays are lists.
\<close>

section \<open>FD DLC helpers (can\_bus.c)\<close>

type_synonym u8 = "8 word"
type_synonym u16 = "16 word"
type_synonym u32 = "32 word"
type_synonym u64 = "64 word"

text \<open>
  Modelled from the spec: the HAL macros \<open>FDCAN_DLC_BYTES_0\<close> ... \<open>FDCAN_DLC_BYTES_64\<close>
  come from the vendor header, which is not part of the sources. The spec's glossary
  says that CAN-FD uses the DLC codes 0 to 15, mapping in order to the length table
  0,1,...,8,12,16,20,24,32,48,64; \<open>can_bus_dlc_to_len\<close> (which masks with \<open>0xF\<close>)
  relies on the same numbering.
\<close>

definition FDCAN_DLC_BYTES_0 :: u32 where "FDCAN_DLC_BYTES_0 = 0"
definition FDCAN_DLC_BYTES_1 :: u32 where "FDCAN_DLC_BYTES_1 = 1"
definition FDCAN_DLC_BYTES_2 :: u32 where "FDCAN_DLC_BYTES_2 = 2"
definition FDCAN_DLC_BYTES_3 :: u32 where "FDCAN_DLC_BYTES_3 = 3"
definition FDCAN_DLC_BYTES_4 :: u32 where "FDCAN_DLC_BYTES_4 = 4"
definition FDCAN_DLC_BYTES_5 :: u32 where "FDCAN_DLC_BYTES_5 = 5"
definition FDCAN_DLC_BYTES_6 :: u32 where "FDCAN_DLC_BYTES_6 = 6"
definition FDCAN_DLC_BYTES_7 :: u32 where "FDCAN_DLC_BYTES_7 = 7"
definition FDCAN_DLC_BYTES_8 :: u32 where "FDCAN_DLC_BYTES_8 = 8"
definition FDCAN_DLC_BYTES_12 :: u32 where "FDCAN_DLC_BYTES_12 = 9"
definition FDCAN_DLC_BYTES_16 :: u32 where "FDCAN_DLC_BYTES_16 = 10"
definition FDCAN_DLC_BYTES_20 :: u32 where "FDCAN_DLC_BYTES_20 = 11"
definition FDCAN_DLC_BYTES_24 :: u32 where "FDCAN_DLC_BYTES_24 = 12"
definition FDCAN_DLC_BYTES_32 :: u32 where "FDCAN_DLC_BYTES_32 = 13"
definition FDCAN_DLC_BYTES_48 :: u32 where "FDCAN_DLC_BYTES_48 = 14"
definition FDCAN_DLC_BYTES_64 :: u32 where "FDCAN_DLC_BYTES_64 = 15"

text \<open>The static table \<open>map[16]\<close> of \<open>can_bus_dlc_to_len\<close>.\<close>

definition dlc_map :: "nat list" where
  "dlc_map = [0, 1, 2, 3, 4, 5, 6, 7, 8, 12, 16, 20, 24, 32, 48, 64]"

text \<open>\<open>size_t\<close> values are lengths; they are modelled as \<open>nat\<close> (no arithmetic on them
  can wrap in the functions below).\<close>

definition can_bus_dlc_to_len :: "u32 \<Rightarrow> nat" where
  "can_bus_dlc_to_len dlc = dlc_map ! unat (dlc AND 0xF)"

definition can_bus_len_to_dlc :: "nat \<Rightarrow> u32" where
  "can_bus_len_to_dlc len =
     (if len = 0 then FDCAN_DLC_BYTES_0
      else if len = 1 then FDCAN_DLC_BYTES_1
      else if len = 2 then FDCAN_DLC_BYTES_2
      else if len = 3 then FDCAN_DLC_BYTES_3
      else if len = 4 then FDCAN_DLC_BYTES_4
      else if len = 5 then FDCAN_DLC_BYTES_5
      else if len = 6 then FDCAN_DLC_BYTES_6
      else if len = 7 then FDCAN_DLC_BYTES_7
      else if len = 8 then FDCAN_DLC_BYTES_8
      else if len = 12 then FDCAN_DLC_BYTES_12
      else if len = 16 then FDCAN_DLC_BYTES_16
      else if len = 20 then FDCAN_DLC_BYTES_20
      else if len = 24 then FDCAN_DLC_BYTES_24
      else if len = 32 then FDCAN_DLC_BYTES_32
      else if len = 48 then FDCAN_DLC_BYTES_48
      else if len = 64 then FDCAN_DLC_BYTES_64
      else 0xFFFFFFFF)"

definition can_bus_round_up_fd_len :: "nat \<Rightarrow> nat" where
  "can_bus_round_up_fd_len len =
     (if len \<le> 8 then len
      else if len \<le> 12 then 12
      else if len \<le> 16 then 16
      else if len \<le> 20 then 20
      else if len \<le> 24 then 24
      else if len \<le> 32 then 32
      else if len \<le> 48 then 48
      else if len \<le> 64 then 64
      else 64)"

section \<open>RX ring buffer, ISR to thread (can\_bus.c)\<close>

definition CAN_BUS_RX_RING_DEPTH :: nat where
  "CAN_BUS_RX_RING_DEPTH = 64"

text \<open>\<open>can_bus_rx_frame_t\<close>: the \<open>data\<close> array has 64 bytes.\<close>

record can_bus_rx_frame_t =
  fr_std_id :: u32
  fr_len :: u8
  fr_data :: "u8 list"

text \<open>The globals \<open>g_rx_head\<close>, \<open>g_rx_tail\<close> and \<open>g_rx_ring\<close>.\<close>

record rx_ring =
  g_rx_head :: u16
  g_rx_tail :: u16
  g_rx_ring :: "can_bus_rx_frame_t list"

definition rb_next :: "u16 \<Rightarrow> u16" where
  "rb_next v = (let v1 = v + 1 in if unat v1 \<ge> CAN_BUS_RX_RING_DEPTH then 0 else v1)"

definition rb_is_empty :: "rx_ring \<Rightarrow> bool" where
  "rb_is_empty r = (g_rx_head r = g_rx_tail r)"

definition rb_is_full :: "rx_ring \<Rightarrow> bool" where
  "rb_is_full r = (rb_next (g_rx_head r) = g_rx_tail r)"

text \<open>
  \<open>memcpy(dst, src, n)\<close> into the front of an array: the first \<open>n\<close> bytes of the
  destination are replaced, the rest stays. The source holds at least \<open>n\<close> bytes in
  every call of the program.
\<close>

definition memcpy_front :: "u8 list \<Rightarrow> u8 list \<Rightarrow> nat \<Rightarrow> u8 list" where
  "memcpy_front dst src n = take n src @ drop n dst"

text \<open>
  Push from the ISR, dropping the oldest frame on overflow. The slot index is below the
  ring depth in every reachable state (shown below), so the array accesses are in range.
\<close>

definition rb_push_drop_oldest :: "u32 \<Rightarrow> u8 list \<Rightarrow> u8 \<Rightarrow> rx_ring \<Rightarrow> rx_ring" where
  "rb_push_drop_oldest sid dat len0 r0 =
     (let len = (if len0 > 64 then 64 else len0);
          r = (if rb_is_full r0 then r0\<lparr>g_rx_tail := rb_next (g_rx_tail r0)\<rparr> else r0);
          h = g_rx_head r;
          slot = g_rx_ring r ! unat h;
          slot1 = slot\<lparr>fr_std_id := sid, fr_len := len,
                        fr_data := memcpy_front (fr_data slot) dat (unat len)\<rparr>
      in r\<lparr>g_rx_ring := (g_rx_ring r)[unat h := slot1], g_rx_head := rb_next h\<rparr>)"

text \<open>Pop in thread context: \<open>None\<close> is the return value 0 (ring empty).\<close>

definition rb_pop :: "rx_ring \<Rightarrow> (can_bus_rx_frame_t \<times> rx_ring) option" where
  "rb_pop r =
     (let t = g_rx_tail r; h = g_rx_head r
      in if h = t then None
         else Some (g_rx_ring r ! unat t, r\<lparr>g_rx_tail := rb_next t\<rparr>))"

text \<open>The ring as \<open>can_bus_init\<close> leaves it: both indices 0; the slots are static
  storage, zero-initialised.\<close>

definition zero_frame :: can_bus_rx_frame_t where
  "zero_frame = \<lparr>fr_std_id = 0, fr_len = 0, fr_data = replicate 64 0\<rparr>"

definition rb_init :: rx_ring where
  "rb_init = \<lparr>g_rx_head = 0, g_rx_tail = 0,
              g_rx_ring = replicate CAN_BUS_RX_RING_DEPTH zero_frame\<rparr>"

text \<open>Interleavings of the producer and the consumer, as sequences of operations.\<close>

datatype rb_op = Push u32 "u8 list" u8 | Pop

fun rb_apply :: "rb_op \<Rightarrow> rx_ring \<Rightarrow> rx_ring" where
  "rb_apply (Push sid dat len) r = rb_push_drop_oldest sid dat len r"
| "rb_apply Pop r = (case rb_pop r of None \<Rightarrow> r | Some (f, r1) \<Rightarrow> r1)"

definition rb_run :: "rb_op list \<Rightarrow> rx_ring \<Rightarrow> rx_ring" where
  "rb_run ops r = fold rb_apply ops r"

text \<open>Number of frames held: the distance from tail to head around the ring.\<close>

definition rb_count :: "rx_ring \<Rightarrow> nat" where
  "rb_count r =
     (unat (g_rx_head r) + CAN_BUS_RX_RING_DEPTH - unat (g_rx_tail r)) mod CAN_BUS_RX_RING_DEPTH"

text \<open>Popping \<open>n\<close> times; the frames obtained, in order (stops early when empty).\<close>

fun rb_pop_n :: "nat \<Rightarrow> rx_ring \<Rightarrow> can_bus_rx_frame_t list \<times> rx_ring" where
  "rb_pop_n 0 r = ([], r)"
| "rb_pop_n (Suc n) r =
     (case rb_pop r of None \<Rightarrow> ([], r)
      | Some (f, r1) \<Rightarrow> (let (fs, r2) = rb_pop_n n r1 in (f # fs, r2)))"

subsection \<open>The ring seen as a queue\<close>

text \<open>Representation invariant of the ring: both indices inside the array.\<close>

definition rb_inv :: "rx_ring \<Rightarrow> bool" where
  "rb_inv r = (unat (g_rx_head r) < 64 \<and> unat (g_rx_tail r) < 64 \<and> length (g_rx_ring r) = 64)"

text \<open>The frames held, oldest first: the slots from tail up to, excluding, head.\<close>

definition rb_contents :: "rx_ring \<Rightarrow> can_bus_rx_frame_t list" where
  "rb_contents r =
     map (\<lambda>k. g_rx_ring r ! ((unat (g_rx_tail r) + k) mod 64)) [0..<rb_count r]"

definition ring_dist :: "nat \<Rightarrow> nat \<Rightarrow> nat" where
  "ring_dist h t = (if t \<le> h then h - t else h + 64 - t)"

definition ring_succ :: "nat \<Rightarrow> nat" where
  "ring_succ v = (if v = 63 then 0 else v + 1)"

text \<open>What \<open>rb_push_drop_oldest\<close> writes into the slot at head.\<close>

definition rb_store :: "can_bus_rx_frame_t \<Rightarrow> u32 \<Rightarrow> u8 list \<Rightarrow> u8 \<Rightarrow> can_bus_rx_frame_t" where
  "rb_store slot sid dat len0 =
     (let len = (if len0 > 64 then 64 else len0)
      in slot\<lparr>fr_std_id := sid, fr_len := len,
              fr_data := memcpy_front (fr_data slot) dat (unat len)\<rparr>)"

text \<open>What a consumer reads from a frame: the identifier and the \<open>len\<close> payload bytes;
  and the same for the arguments of a push (the length is capped at 64).\<close>

definition frame_view :: "can_bus_rx_frame_t \<Rightarrow> u32 \<times> u8 list" where
  "frame_view f = (fr_std_id f, take (unat (fr_len f)) (fr_data f))"

definition pushed_view :: "u32 \<times> u8 list \<times> u8 \<Rightarrow> u32 \<times> u8 list" where
  "pushed_view x = (case x of (sid, dat, len) \<Rightarrow> (sid, take (min (unat len) 64) dat))"

definition push_op :: "u32 \<times> u8 list \<times> u8 \<Rightarrow> rb_op" where
  "push_op x = (case x of (sid, dat, len) \<Rightarrow> Push sid dat len)"

text \<open>The source buffer of a push holds at least the bytes that are copied.\<close>

definition push_ok :: "u32 \<times> u8 list \<times> u8 \<Rightarrow> bool" where
  "push_ok x = (case x of (sid, dat, len) \<Rightarrow> min (unat len) 64 \<le> length dat)"

text \<open>Numbered test frames: frame \<open>k\<close> has identifier \<open>k\<close> and 64 bytes \<open>k\<close>.\<close>

definition test_frame :: "nat \<Rightarrow> u32 \<times> u8 list \<times> u8" where
  "test_frame k = (of_nat k, replicate 64 (of_nat k), 64)"

definition test_frames :: "nat \<Rightarrow> (u32 \<times> u8 list \<times> u8) list" where
  "test_frames n = map test_frame [1..<Suc n]"

definition rb_first_id :: "rx_ring \<Rightarrow> u32 option" where
  "rb_first_id r = (case rb_pop r of None \<Rightarrow> None | Some (f, r1) \<Rightarrow> Some (fr_std_id f))"

section \<open>Subscriber fanout (can\_bus.c)\<close>

definition CAN_BUS_MAX_SUBSCRIBERS :: nat where
  "CAN_BUS_MAX_SUBSCRIBERS = 8"

text \<open>
  \<open>can_bus_sub_t\<close>: a callback (a function pointer, here a number; \<open>None\<close> is \<open>NULL\<close>) and
  its \<open>user\<close> pointer. A call of a callback is recorded as the triple of the callback,
  its user pointer and the bytes \<open>data[0..len)\<close> it is given.
\<close>

record can_bus_sub_t =
  cb :: "nat option"
  user :: nat

type_synonym rx_call = "nat \<times> nat \<times> u8 list"

section \<open>Fragmentation protocol (can\_bus.c)\<close>

definition CAN_BUS_FRAG_MAGIC :: u16 where
  "CAN_BUS_FRAG_MAGIC = 0x5344"

definition CAN_BUS_FRAG_WIRE_LEN :: nat where
  "CAN_BUS_FRAG_WIRE_LEN = 64"


record can_bus_frag_hdr_t =
  hdr_magic :: u16
  hdr_seq :: u8
  hdr_frag_idx :: u8
  hdr_frag_cnt :: u8
  hdr_flags :: u8
  hdr_total_len :: u16

text \<open>\<open>sizeof(can_bus_frag_hdr_t)\<close>: the struct is packed.\<close>

definition sizeof_hdr :: nat where
  "sizeof_hdr = 8"

definition CAN_BUS_FRAG_F_FIRST :: u8 where
  "CAN_BUS_FRAG_F_FIRST = push_bit 0 1"

definition CAN_BUS_FRAG_F_LAST :: u8 where
  "CAN_BUS_FRAG_F_LAST = push_bit 1 1"

text \<open>
  \<open>memcpy\<close> between the packed header and a byte array. The target is little-endian
  (Cortex-M), so a 16-bit field is its low byte followed by its high byte.
\<close>

definition le16 :: "u8 \<Rightarrow> u8 \<Rightarrow> u16" where
  "le16 lo hi = ucast lo OR push_bit 8 (ucast hi)"

definition hdr_load :: "u8 list \<Rightarrow> can_bus_frag_hdr_t" where
  "hdr_load d =
     \<lparr>hdr_magic = le16 (d ! 0) (d ! 1), hdr_seq = d ! 2, hdr_frag_idx = d ! 3,
      hdr_frag_cnt = d ! 4, hdr_flags = d ! 5, hdr_total_len = le16 (d ! 6) (d ! 7)\<rparr>"

definition hdr_store :: "can_bus_frag_hdr_t \<Rightarrow> u8 list" where
  "hdr_store h =
     [ucast (hdr_magic h), ucast (drop_bit 8 (hdr_magic h)), hdr_seq h, hdr_frag_idx h,
      hdr_frag_cnt h, hdr_flags h, ucast (hdr_total_len h), ucast (drop_bit 8 (hdr_total_len h))]"

section \<open>Reassembly state (can\_bus.c)\<close>

definition CAN_BUS_REASM_SLOTS :: nat where
  "CAN_BUS_REASM_SLOTS = 4"

definition CAN_BUS_REASM_MAX_BYTES :: nat where
  "CAN_BUS_REASM_MAX_BYTES = 2048"

definition CAN_BUS_REASM_MAX_FRAGS :: nat where
  "CAN_BUS_REASM_MAX_FRAGS = 64"

text \<open>Number of 64-bit words of \<open>got_mask\<close>.\<close>

definition GOT_MASK_WORDS :: nat where
  "GOT_MASK_WORDS = (CAN_BUS_REASM_MAX_FRAGS + 63) div 64"

text \<open>\<open>can_bus_reasm_slot_t\<close>: \<open>got_mask\<close> has \<open>GOT_MASK_WORDS\<close> words and \<open>buf\<close> has
  \<open>CAN_BUS_REASM_MAX_BYTES\<close> bytes.\<close>

record can_bus_reasm_slot_t =
  active :: u8
  std_id :: u32
  seq :: u8
  frag_cnt :: u8
  total_len :: u16
  data_cap :: u8
  last_tick_ms :: u32
  got_mask :: "u64 list"
  got_count :: u16
  buf :: "u8 list"

text \<open>\<open>reasm_reset\<close> clears the bookkeeping; it does not touch \<open>buf\<close>.\<close>

definition reasm_reset :: "can_bus_reasm_slot_t \<Rightarrow> can_bus_reasm_slot_t" where
  "reasm_reset s =
     s\<lparr>active := 0, std_id := 0, seq := 0, frag_cnt := 0, total_len := 0, data_cap := 0,
       last_tick_ms := 0, got_count := 0, got_mask := replicate GOT_MASK_WORDS 0\<rparr>"

text \<open>The statements that claim a slot for a message (they occur twice in
  \<open>reasm_get_slot\<close>): reset, then set \<open>active\<close>, \<open>std_id\<close>, \<open>seq\<close> and \<open>last_tick_ms\<close>.\<close>

definition reasm_claim ::
  "can_bus_reasm_slot_t \<Rightarrow> u32 \<Rightarrow> u8 \<Rightarrow> u32 \<Rightarrow> can_bus_reasm_slot_t" where
  "reasm_claim s sid sq now_ms =
     (reasm_reset s)\<lparr>active := 1, std_id := sid, seq := sq, last_tick_ms := now_ms\<rparr>"

text \<open>The third loop of \<open>reasm_get_slot\<close>: the index of the stalest slot.\<close>

definition reasm_stalest :: "u32 \<Rightarrow> can_bus_reasm_slot_t list \<Rightarrow> nat" where
  "reasm_stalest now_ms g =
     fst (fold (\<lambda>i (stalest, best_age).
                  let age = now_ms - last_tick_ms (g ! i)
                  in if age \<ge> best_age then (i, age) else (stalest, best_age))
            [0..<CAN_BUS_REASM_SLOTS] (0, 0 :: u32))"

text \<open>
  \<open>reasm_get_slot\<close> returns a pointer into \<open>g_reasm\<close>: here the index of the slot, with
  the updated table. A \<open>for\<close> loop that returns at the first hit is \<open>find\<close> over the
  indices.
\<close>

definition reasm_get_slot ::
  "u32 \<Rightarrow> u8 \<Rightarrow> u32 \<Rightarrow> can_bus_reasm_slot_t list \<Rightarrow> nat \<times> can_bus_reasm_slot_t list" where
  "reasm_get_slot sid sq now_ms g =
     (case find (\<lambda>i. active (g ! i) \<noteq> 0 \<and> std_id (g ! i) = sid) [0..<CAN_BUS_REASM_SLOTS] of
        Some i \<Rightarrow>
          let g1 = (if seq (g ! i) \<noteq> sq then g[i := reasm_reset (g ! i)] else g)
          in (i, g1[i := (g1 ! i)\<lparr>last_tick_ms := now_ms\<rparr>])
      | None \<Rightarrow>
          (case find (\<lambda>i. active (g ! i) = 0) [0..<CAN_BUS_REASM_SLOTS] of
             Some i \<Rightarrow> (i, g[i := reasm_claim (g ! i) sid sq now_ms])
           | None \<Rightarrow>
               let i = reasm_stalest now_ms g
               in (i, g[i := reasm_claim (g ! i) sid sq now_ms])))"

definition bit_test :: "u64 list \<Rightarrow> u16 \<Rightarrow> bool" where
  "bit_test msk idx =
     (let w = idx div 64; b = idx mod 64
      in drop_bit (unat b) (msk ! unat w) AND 1 \<noteq> 0)"

definition bit_set :: "u64 list \<Rightarrow> u16 \<Rightarrow> u64 list" where
  "bit_set msk idx =
     (let w = idx div 64; b = idx mod 64
      in msk[unat w := (msk ! unat w) OR push_bit (unat b) 1])"


section \<open>The receive path (can\_bus.c)\<close>

text \<open>
  The state of the receiving side: the subscriber table \<open>g_subs\<close> (8 entries), the
  reassembly table \<open>g_reasm\<close> (4 slots), the ring, and the callback invocations made so
  far.
\<close>

record can_rx_state =
  g_subs :: "can_bus_sub_t list"
  g_reasm :: "can_bus_reasm_slot_t list"
  g_rx :: rx_ring
  rx_calls :: "rx_call list"

text \<open>\<open>can_bus_notify_rx\<close> calls every non-null callback, in table order, with
  \<open>(data, len, user)\<close>; \<open>fanout\<close> is its loop over the table.\<close>

fun fanout :: "can_bus_sub_t list \<Rightarrow> u8 list \<Rightarrow> rx_call list" where
  "fanout [] bytes = []"
| "fanout (s # ss) bytes =
     (case cb s of None \<Rightarrow> fanout ss bytes
      | Some c \<Rightarrow> (c, user s, bytes) # fanout ss bytes)"

definition can_bus_notify_rx :: "u8 list \<Rightarrow> nat \<Rightarrow> can_rx_state \<Rightarrow> can_rx_state" where
  "can_bus_notify_rx dat n st = st\<lparr>rx_calls := rx_calls st @ fanout (g_subs st) (take n dat)\<rparr>"

text \<open>\<open>memcpy(&dst[off], src, n)\<close>.\<close>

definition memcpy_at :: "u8 list \<Rightarrow> nat \<Rightarrow> u8 list \<Rightarrow> nat \<Rightarrow> u8 list" where
  "memcpy_at dst off src n = take off dst @ take n src @ drop (off + n) dst"

text \<open>
  \<open>handle_rx_frame\<close> returns nothing; the model also returns which of its exits was
  taken: the raw delivery at the end, one of the five header checks, one of the two
  mismatch resets, the offset check, or the end of the fragment branch without and with
  completion.
\<close>

datatype rx_path =
  Raw_Delivered | Hdr_Rejected | Param_Mismatch | Offset_Rejected | Frag_Stored | Msg_Completed

definition handle_rx_frame ::
  "can_bus_rx_frame_t \<Rightarrow> u32 \<Rightarrow> can_rx_state \<Rightarrow> rx_path \<times> can_rx_state" where
  "handle_rx_frame f now_ms st =
     (let hdr = hdr_load (fr_data f)
      in if unat (fr_len f) \<ge> sizeof_hdr \<and> hdr_magic hdr = CAN_BUS_FRAG_MAGIC then
           if hdr_frag_cnt hdr = 0 then (Hdr_Rejected, st)
           else if hdr_frag_idx hdr \<ge> hdr_frag_cnt hdr then (Hdr_Rejected, st)
           else if unat (hdr_frag_cnt hdr) > CAN_BUS_REASM_MAX_FRAGS then (Hdr_Rejected, st)
           else if hdr_total_len hdr = 0 then (Hdr_Rejected, st)
           else if unat (hdr_total_len hdr) > CAN_BUS_REASM_MAX_BYTES then (Hdr_Rejected, st)
           else
             let payload = drop sizeof_hdr (fr_data f);
                 payload_len = fr_len f - 8;
                 (i, g) = reasm_get_slot (fr_std_id f) (hdr_seq hdr) now_ms (g_reasm st);
                 s = g ! i
             in if frag_cnt s \<noteq> 0 \<and> frag_cnt s \<noteq> hdr_frag_cnt hdr then
                  (Param_Mismatch, st\<lparr>g_reasm := g[i := reasm_reset s]\<rparr>)
                else if frag_cnt s \<noteq> 0 \<and> total_len s \<noteq> hdr_total_len hdr then
                  (Param_Mismatch, st\<lparr>g_reasm := g[i := reasm_reset s]\<rparr>)
                else
                  let s1 = (if frag_cnt s = 0
                            then s\<lparr>frag_cnt := hdr_frag_cnt hdr,
                                   total_len := hdr_total_len hdr,
                                   data_cap := payload_len,
                                   got_count := 0,
                                   got_mask := replicate GOT_MASK_WORDS 0\<rparr>
                            else s);
                      off = (ucast (hdr_frag_idx hdr) :: u32) * ucast (data_cap s1)
                  in if off \<ge> ucast (total_len s1) then
                       (Offset_Rejected, st\<lparr>g_reasm := g[i := s1]\<rparr>)
                     else
                       let take0 = (ucast payload_len :: u32);
                           tk = (if off + take0 > ucast (total_len s1)
                                 then ucast (total_len s1) - off else take0);
                           s2 = (if \<not> bit_test (got_mask s1) (ucast (hdr_frag_idx hdr))
                                 then s1\<lparr>got_mask :=
                                            bit_set (got_mask s1) (ucast (hdr_frag_idx hdr)),
                                         got_count := got_count s1 + 1,
                                         buf := memcpy_at (buf s1) (unat off) payload (unat tk)\<rparr>
                                 else s1);
                           s3 = s2\<lparr>last_tick_ms := now_ms\<rparr>
                       in if unat (got_count s3) = unat (frag_cnt s3) then
                            (Msg_Completed,
                             (can_bus_notify_rx (buf s3) (unat (total_len s3)) st)
                               \<lparr>g_reasm := g[i := reasm_reset s3]\<rparr>)
                          else (Frag_Stored, st\<lparr>g_reasm := g[i := s3]\<rparr>)
         else (Raw_Delivered, can_bus_notify_rx (fr_data f) (unat (fr_len f)) st))"




text \<open>Feeding frames to \<open>handle_rx_frame\<close> one after the other, each with its tick.\<close>

definition rx_feed :: "(can_bus_rx_frame_t \<times> u32) list \<Rightarrow> can_rx_state \<Rightarrow> can_rx_state" where
  "rx_feed fts st = fold (\<lambda>ft s. snd (handle_rx_frame (fst ft) (snd ft) s)) fts st"

subsection \<open>The parts of \<open>handle_rx_frame\<close>\<close>

text \<open>The test that makes a frame a fragment, and the five checks on its header.\<close>

definition is_frag :: "can_bus_rx_frame_t \<Rightarrow> bool" where
  "is_frag f = (unat (fr_len f) \<ge> sizeof_hdr \<and> hdr_magic (hdr_load (fr_data f)) = CAN_BUS_FRAG_MAGIC)"

definition hdr_bad :: "can_bus_frag_hdr_t \<Rightarrow> bool" where
  "hdr_bad hdr = (hdr_frag_cnt hdr = 0 \<or> hdr_frag_idx hdr \<ge> hdr_frag_cnt hdr \<or>
                  unat (hdr_frag_cnt hdr) > CAN_BUS_REASM_MAX_FRAGS \<or> hdr_total_len hdr = 0 \<or>
                  unat (hdr_total_len hdr) > CAN_BUS_REASM_MAX_BYTES)"

text \<open>
  What \<open>handle_rx_frame\<close> does with the slot that \<open>reasm_get_slot\<close> returned: the exit
  taken, the slot afterwards, and the buffer and length given to \<open>can_bus_notify_rx\<close>
  when the message is complete.
\<close>

definition slot_accept ::
  "can_bus_frag_hdr_t \<Rightarrow> u8 list \<Rightarrow> u8 \<Rightarrow> u32 \<Rightarrow> can_bus_reasm_slot_t
     \<Rightarrow> rx_path \<times> can_bus_reasm_slot_t \<times> (u8 list \<times> nat) option" where
  "slot_accept hdr payload payload_len now_ms s =
     (if frag_cnt s \<noteq> 0 \<and> frag_cnt s \<noteq> hdr_frag_cnt hdr then (Param_Mismatch, reasm_reset s, None)
      else if frag_cnt s \<noteq> 0 \<and> total_len s \<noteq> hdr_total_len hdr then
        (Param_Mismatch, reasm_reset s, None)
      else
        let s1 = (if frag_cnt s = 0
                  then s\<lparr>frag_cnt := hdr_frag_cnt hdr, total_len := hdr_total_len hdr,
                         data_cap := payload_len, got_count := 0,
                         got_mask := replicate GOT_MASK_WORDS 0\<rparr>
                  else s);
            off = (ucast (hdr_frag_idx hdr) :: u32) * ucast (data_cap s1)
        in if off \<ge> ucast (total_len s1) then (Offset_Rejected, s1, None)
           else
             let take0 = (ucast payload_len :: u32);
                 tk = (if off + take0 > ucast (total_len s1)
                       then ucast (total_len s1) - off else take0);
                 s2 = (if \<not> bit_test (got_mask s1) (ucast (hdr_frag_idx hdr))
                       then s1\<lparr>got_mask := bit_set (got_mask s1) (ucast (hdr_frag_idx hdr)),
                               got_count := got_count s1 + 1,
                               buf := memcpy_at (buf s1) (unat off) payload (unat tk)\<rparr>
                       else s1);
                 s3 = s2\<lparr>last_tick_ms := now_ms\<rparr>
             in if unat (got_count s3) = unat (frag_cnt s3)
                then (Msg_Completed, reasm_reset s3, Some (buf s3, unat (total_len s3)))
                else (Frag_Stored, s3, None))"




text \<open>Handling a list of frames at one tick.\<close>

definition rx_handle_all :: "u32 \<Rightarrow> can_bus_rx_frame_t list \<Rightarrow> can_rx_state \<Rightarrow> can_rx_state" where
  "rx_handle_all now fs st = rx_feed (map (\<lambda>f. (f, now)) fs) st"

text \<open>The steps of \<open>slot_accept\<close>: taking the message parameters from the first fragment,
  and marking and copying a fragment not seen before.\<close>

definition slot_params :: "can_bus_frag_hdr_t \<Rightarrow> u8 \<Rightarrow> can_bus_reasm_slot_t \<Rightarrow> can_bus_reasm_slot_t" where
  "slot_params hdr payload_len s =
     (if frag_cnt s = 0
      then s\<lparr>frag_cnt := hdr_frag_cnt hdr, total_len := hdr_total_len hdr,
             data_cap := payload_len, got_count := 0,
             got_mask := replicate GOT_MASK_WORDS 0\<rparr>
      else s)"

definition slot_off :: "can_bus_frag_hdr_t \<Rightarrow> can_bus_reasm_slot_t \<Rightarrow> u32" where
  "slot_off hdr s1 = (ucast (hdr_frag_idx hdr) :: u32) * ucast (data_cap s1)"

definition slot_take :: "can_bus_frag_hdr_t \<Rightarrow> u8 \<Rightarrow> can_bus_reasm_slot_t \<Rightarrow> u32" where
  "slot_take hdr payload_len s1 =
     (if slot_off hdr s1 + ucast payload_len > ucast (total_len s1)
      then ucast (total_len s1) - slot_off hdr s1 else ucast payload_len)"

definition slot_mark ::
  "can_bus_frag_hdr_t \<Rightarrow> u8 list \<Rightarrow> u8 \<Rightarrow> can_bus_reasm_slot_t \<Rightarrow> can_bus_reasm_slot_t" where
  "slot_mark hdr payload payload_len s1 =
     (if \<not> bit_test (got_mask s1) (ucast (hdr_frag_idx hdr))
      then s1\<lparr>got_mask := bit_set (got_mask s1) (ucast (hdr_frag_idx hdr)),
              got_count := got_count s1 + 1,
              buf := memcpy_at (buf s1) (unat (slot_off hdr s1)) payload
                       (unat (slot_take hdr payload_len s1))\<rparr>
      else s1)"



subsection \<open>Concrete states and frames\<close>

text \<open>The receiving side after \<open>can_bus_init\<close> (static storage is zero-initialised), and
  the same with one subscriber registered.\<close>

definition zero_slot :: can_bus_reasm_slot_t where
  "zero_slot =
     \<lparr>active = 0, std_id = 0, seq = 0, frag_cnt = 0, total_len = 0, data_cap = 0,
      last_tick_ms = 0, got_mask = replicate GOT_MASK_WORDS 0, got_count = 0,
      buf = replicate CAN_BUS_REASM_MAX_BYTES 0\<rparr>"

definition rx_init :: can_rx_state where
  "rx_init =
     \<lparr>g_subs = replicate CAN_BUS_MAX_SUBSCRIBERS \<lparr>cb = None, user = 0\<rparr>,
      g_reasm = replicate CAN_BUS_REASM_SLOTS zero_slot, g_rx = rb_init, rx_calls = []\<rparr>"

definition rx_one_sub :: can_rx_state where
  "rx_one_sub =
     rx_init\<lparr>g_subs := \<lparr>cb = Some 1, user = 0\<rparr> # replicate 7 \<lparr>cb = None, user = 0\<rparr>\<rparr>"

text \<open>A frame of \<open>n\<close> bytes: the given bytes, zero-padded to the 64 bytes of \<open>data\<close>.\<close>

definition mk_frame :: "u32 \<Rightarrow> u8 list \<Rightarrow> can_bus_rx_frame_t" where
  "mk_frame sid bytes =
     \<lparr>fr_std_id = sid, fr_len = of_nat (length bytes),
      fr_data = bytes @ replicate (64 - length bytes) 0\<rparr>"


definition bad_cnt_frame :: can_bus_rx_frame_t where
  "bad_cnt_frame = mk_frame 3 [0x44, 0x53, 0, 0, 0, 0, 1, 0]"










section \<open>The transmit path (can\_bus.c)\<close>

datatype HAL_StatusTypeDef = HAL_OK | HAL_ERROR | HAL_BUSY | HAL_TIMEOUT

text \<open>The vendor's constants for the fields of the TX header, as symbols.\<close>

datatype fdcan_const =
  FDCAN_STANDARD_ID | FDCAN_DATA_FRAME | FDCAN_ESI_ACTIVE | FDCAN_BRS_OFF | FDCAN_FD_CAN
  | FDCAN_NO_TX_EVENTS

record FDCAN_TxHeaderTypeDef =
  Identifier :: u32
  IdType :: fdcan_const
  TxFrameType :: fdcan_const
  DataLength :: u32
  ErrorStateIndicator :: fdcan_const
  BitRateSwitch :: fdcan_const
  FDFormat :: fdcan_const
  TxEventFifoControl :: fdcan_const
  MessageMarker :: u32

text \<open>
  The state of the sending side: the handle \<open>g_hfdcan\<close> (\<open>None\<close> is \<open>NULL\<close>), the
  sequence counter \<open>g_seq\<close> of \<open>can_bus_send_large\<close>, and the messages handed to
  \<open>HAL_FDCAN_AddMessageToTxFifoQ\<close> so far (header and the 64-byte data array). The
  driver is a parameter: it gives the status of the latest call, from all calls so far.
\<close>

record can_tx_state =
  g_hfdcan :: "nat option"
  g_seq :: u8
  tx_calls :: "(FDCAN_TxHeaderTypeDef \<times> u8 list) list"

type_synonym fdcan_driver = "(FDCAN_TxHeaderTypeDef \<times> u8 list) list \<Rightarrow> HAL_StatusTypeDef"

text \<open>
  \<open>can_bus_send_bytes(bytes, len, std_id)\<close>: the pointer and its length are one list
  (\<open>None\<close> is the \<open>NULL\<close> pointer, the length of the list is \<open>len\<close>).
\<close>

definition can_bus_send_bytes ::
  "fdcan_driver \<Rightarrow> u8 list option \<Rightarrow> u32 \<Rightarrow> can_tx_state \<Rightarrow> HAL_StatusTypeDef \<times> can_tx_state" where
  "can_bus_send_bytes drv bytes sid st =
     (if g_hfdcan st = None then (HAL_ERROR, st)
      else case bytes of
        None \<Rightarrow> (HAL_ERROR, st)
      | Some bs \<Rightarrow>
          if length bs = 0 then (HAL_ERROR, st)
          else
            let len = (if length bs > 64 then 64 else length bs);
                wire_len = can_bus_round_up_fd_len len;
                dlc = can_bus_len_to_dlc wire_len
            in if dlc = 0xFFFFFFFF then (HAL_ERROR, st)
               else
                 let txHeader =
                       \<lparr>Identifier = sid AND 0x7FF, IdType = FDCAN_STANDARD_ID,
                        TxFrameType = FDCAN_DATA_FRAME, DataLength = dlc,
                        ErrorStateIndicator = FDCAN_ESI_ACTIVE, BitRateSwitch = FDCAN_BRS_OFF,
                        FDFormat = FDCAN_FD_CAN, TxEventFifoControl = FDCAN_NO_TX_EVENTS,
                        MessageMarker = 0\<rparr>;
                     txData = memcpy_front (replicate 64 0) bs len;
                     calls = tx_calls st @ [(txHeader, txData)]
                 in (drv calls, st\<lparr>tx_calls := calls\<rparr>))"

text \<open>
  The \<open>for\<close> loop of \<open>can_bus_send_large\<close>, from fragment \<open>idx\<close> and offset \<open>off\<close> on.
  \<open>off\<close> never exceeds the length, so \<open>len - off\<close> does not wrap.
\<close>

function send_frags ::
  "fdcan_driver \<Rightarrow> u8 list \<Rightarrow> u32 \<Rightarrow> u8 \<Rightarrow> u8 \<Rightarrow> u8 \<Rightarrow> nat \<Rightarrow> can_tx_state
     \<Rightarrow> HAL_StatusTypeDef \<times> can_tx_state" where
  "send_frags drv bs sid sq fcnt idx off st =
     (if idx < fcnt then
        let hdr = \<lparr>hdr_magic = CAN_BUS_FRAG_MAGIC, hdr_seq = sq, hdr_frag_idx = idx,
                   hdr_frag_cnt = fcnt,
                   hdr_flags = (if idx = 0 then CAN_BUS_FRAG_F_FIRST else 0)
                                 OR (if idx = fcnt - 1 then CAN_BUS_FRAG_F_LAST else 0),
                   hdr_total_len = of_nat (length bs)\<rparr>;
            frame0 = memcpy_front (replicate 64 0) (hdr_store hdr) sizeof_hdr;
            tk = (if length bs - off > CAN_BUS_FRAG_WIRE_LEN - sizeof_hdr
                  then CAN_BUS_FRAG_WIRE_LEN - sizeof_hdr else length bs - off);
            frame = memcpy_at frame0 sizeof_hdr (drop off bs) tk;
            (status, st1) = can_bus_send_bytes drv (Some frame) sid st
        in if status \<noteq> HAL_OK then (status, st1)
           else send_frags drv bs sid sq fcnt (idx + 1) (off + tk) st1
      else (HAL_OK, st))"
  by pat_completeness auto
termination
proof (relation "measure (\<lambda>(drv, bs, sid, sq, fcnt, idx, off, st). unat fcnt - unat idx)")
  show "wf (measure (\<lambda>(drv, bs, sid, sq, fcnt, idx, off, st). unat fcnt - unat idx))"
    by simp
next
  fix drv :: fdcan_driver and bs :: "u8 list" and sid :: u32 and sq fcnt idx :: u8
    and off :: nat and st :: can_tx_state and x xa xb xc xd y
  assume lt: "idx < fcnt"
  have a: "unat idx < unat fcnt" using lt by (simp add: word_less_nat_alt)
  have "unat fcnt < 256" using unsigned_less[of fcnt, where ?'a = nat] by simp
  then have "unat idx + 1 < 256" using a by simp
  then have "unat (idx + 1) = unat idx + 1"
    by (simp add: unat_word_ariths)
  then show "((drv, bs, sid, sq, fcnt, idx + 1, off + xb, y), (drv, bs, sid, sq, fcnt, idx, off, st))
        \<in> measure (\<lambda>(drv, bs, sid, sq, fcnt, idx, off, st). unat fcnt - unat idx)"
    using a by simp
qed

definition can_bus_send_large ::
  "fdcan_driver \<Rightarrow> u8 list option \<Rightarrow> u32 \<Rightarrow> can_tx_state \<Rightarrow> HAL_StatusTypeDef \<times> can_tx_state" where
  "can_bus_send_large drv bytes sid st =
     (if g_hfdcan st = None then (HAL_ERROR, st)
      else case bytes of
        None \<Rightarrow> (HAL_ERROR, st)
      | Some bs \<Rightarrow>
          if length bs = 0 then (HAL_ERROR, st)
          else if length bs > 0xFFFF then (HAL_ERROR, st)
          else
            let sq = g_seq st;
                st1 = st\<lparr>g_seq := g_seq st + 1\<rparr>;
                hdr_sz = sizeof_hdr;
                wire_len = CAN_BUS_FRAG_WIRE_LEN
            in if wire_len > 64 then (HAL_ERROR, st1)
               else
                 let data_cap = wire_len - hdr_sz
                 in if data_cap = 0 then (HAL_ERROR, st1)
                    else
                      let frag_cnt_sz0 = (length bs + data_cap - 1) div data_cap;
                          frag_cnt_sz = (if frag_cnt_sz0 = 0 then 1 else frag_cnt_sz0)
                      in if frag_cnt_sz > 255 then (HAL_ERROR, st1)
                         else send_frags drv bs sid sq (of_nat frag_cnt_sz) 0 0 st1)"

text \<open>
  The ISR \<open>HAL_FDCAN_RxFifo1Callback\<close> turns a received message (the identifier and
  the DLC code of its header, and its data) into the arguments of
  \<open>rb_push_drop_oldest\<close>: the identifier masked to 11 bits, the data, and the length
  that \<open>can_bus_dlc_to_len\<close> gives, capped at 64. The frame below is what the consumer
  then reads from the ring slot in \<open>data[0..len)\<close>; for a 64-byte message it is the
  whole slot. A peer's message arrives with the identifier and the DLC code it was
  sent with.
\<close>

definition isr_rx_frame :: "FDCAN_TxHeaderTypeDef \<times> u8 list \<Rightarrow> can_bus_rx_frame_t" where
  "isr_rx_frame m =
     (let sid = Identifier (fst m) AND 0x7FF;
          len0 = can_bus_dlc_to_len (DataLength (fst m));
          len = (if len0 > 64 then 64 else len0)
      in \<lparr>fr_std_id = sid, fr_len = of_nat len, fr_data = snd m\<rparr>)"

subsection \<open>The frames of a fragmented message\<close>

text \<open>The header of fragment \<open>idx\<close> of \<open>fcnt\<close>, for a message of \<open>n\<close> bytes with sequence
  number \<open>sq\<close>; the 56-byte chunk it carries; and the 64 bytes of its wire frame.\<close>

definition frag_hdr :: "u8 \<Rightarrow> nat \<Rightarrow> u8 \<Rightarrow> u8 \<Rightarrow> can_bus_frag_hdr_t" where
  "frag_hdr sq n fcnt idx =
     \<lparr>hdr_magic = 0x5344, hdr_seq = sq, hdr_frag_idx = idx, hdr_frag_cnt = fcnt,
      hdr_flags = (if idx = 0 then 1 else 0) OR (if idx = fcnt - 1 then 2 else 0),
      hdr_total_len = of_nat n\<rparr>"

definition frag_chunk :: "u8 list \<Rightarrow> nat \<Rightarrow> u8 list" where
  "frag_chunk bs i = take 56 (drop (56 * i) bs)"

definition frag_wire :: "u8 \<Rightarrow> u8 list \<Rightarrow> u8 \<Rightarrow> u8 \<Rightarrow> u8 list" where
  "frag_wire sq bs fcnt idx =
     hdr_store (frag_hdr sq (length bs) fcnt idx) @ frag_chunk bs (unat idx)
       @ replicate (56 - length (frag_chunk bs (unat idx))) 0"

text \<open>The TX header of a 64-byte frame.\<close>

definition tx_header_64 :: "u32 \<Rightarrow> FDCAN_TxHeaderTypeDef" where
  "tx_header_64 sid =
     \<lparr>Identifier = sid AND 0x7FF, IdType = FDCAN_STANDARD_ID, TxFrameType = FDCAN_DATA_FRAME,
      DataLength = FDCAN_DLC_BYTES_64, ErrorStateIndicator = FDCAN_ESI_ACTIVE,
      BitRateSwitch = FDCAN_BRS_OFF, FDFormat = FDCAN_FD_CAN,
      TxEventFifoControl = FDCAN_NO_TX_EVENTS, MessageMarker = 0\<rparr>"

text \<open>A sender after \<open>can_bus_init\<close>, and a driver that accepts every message.\<close>

definition tx_init :: can_tx_state where
  "tx_init = \<lparr>g_hfdcan = Some 1, g_seq = 0, tx_calls = []\<rparr>"

definition drv_ok :: fdcan_driver where
  "drv_ok calls = HAL_OK"

text \<open>The \<open>i\<close>-th message that a call of \<open>can_bus_send_large\<close> hands to the driver.\<close>

definition sent_msg ::
  "fdcan_driver \<Rightarrow> u8 list \<Rightarrow> u32 \<Rightarrow> can_tx_state \<Rightarrow> nat \<Rightarrow> FDCAN_TxHeaderTypeDef \<times> u8 list" where
  "sent_msg drv bs sid st i =
     tx_calls (snd (can_bus_send_large drv (Some bs) sid st)) ! (length (tx_calls st) + i)"

subsection \<open>Reassembling the fragments of one message\<close>

text \<open>
  The slot that collects the message \<open>bs\<close> (identifier \<open>sid\<close>, sequence number \<open>sq\<close>) once
  the fragments with the indices in \<open>S\<close> have been stored: the parameters of the
  message, one mask bit and one count per stored fragment, and the bytes of the stored
  fragments in place.
\<close>

definition msg_slot :: "u32 \<Rightarrow> u8 \<Rightarrow> u8 list \<Rightarrow> nat set \<Rightarrow> can_bus_reasm_slot_t \<Rightarrow> bool" where
  "msg_slot sid sq bs S s =
     (active s \<noteq> 0 \<and> std_id s = sid \<and> seq s = sq \<and>
      frag_cnt s = of_nat ((length bs + 55) div 56) \<and> total_len s = of_nat (length bs) \<and>
      data_cap s = 56 \<and> unat (got_count s) = card S \<and> length (got_mask s) = 1 \<and>
      (\<forall>i<64. bit (got_mask s ! 0) i = (i \<in> S)) \<and> length (buf s) = 2048 \<and>
      (\<forall>i\<in>S. \<forall>k. 56 * i \<le> k \<and> k < 56 * (i + 1) \<and> k < length bs \<longrightarrow> buf s ! k = bs ! k))"

text \<open>The table is well formed; no active slot belongs to \<open>sid\<close>; slot \<open>j\<close> is the one
  active slot of \<open>sid\<close> and collects the message.\<close>

definition reasm_wf :: "can_bus_reasm_slot_t list \<Rightarrow> bool" where
  "reasm_wf g = (length g = CAN_BUS_REASM_SLOTS \<and> list_all (\<lambda>s. length (buf s) = 2048) g)"

definition sid_idle :: "u32 \<Rightarrow> can_bus_reasm_slot_t list \<Rightarrow> bool" where
  "sid_idle sid g = list_all (\<lambda>s. active s = 0 \<or> std_id s \<noteq> sid) g"

definition collecting ::
  "u32 \<Rightarrow> u8 \<Rightarrow> u8 list \<Rightarrow> nat set \<Rightarrow> nat \<Rightarrow> can_bus_reasm_slot_t list \<Rightarrow> bool" where
  "collecting sid sq bs S j g =
     (j < CAN_BUS_REASM_SLOTS \<and> msg_slot sid sq bs S (g ! j) \<and>
      sid_idle sid (g[j := reasm_reset (g ! j)]))"

text \<open>The frame that the receiver's ISR queues for fragment \<open>i\<close> of the message.\<close>

definition rx_frag :: "u32 \<Rightarrow> u8 \<Rightarrow> u8 list \<Rightarrow> nat \<Rightarrow> can_bus_rx_frame_t" where
  "rx_frag sid sq bs i =
     isr_rx_frame (tx_header_64 sid,
                   frag_wire sq bs (of_nat ((length bs + 55) div 56)) (of_nat i))"

text \<open>
  Two messages of 100 bytes (two fragments each) that a sender transmits one after the
  other on the telemetry identifier \<open>0x03\<close>, and the sender's state between the two
  calls.
\<close>

definition msg_a :: "u8 list" where
  "msg_a = replicate 100 0xA1"

definition msg_b :: "u8 list" where
  "msg_b = replicate 100 0xB2"

definition tx_after_a :: can_tx_state where
  "tx_after_a = snd (can_bus_send_large drv_ok (Some msg_a) 3 tx_init)"

section \<open>Time sync (telemetry.c)\<close>

text \<open>Division of \<open>int64_t\<close> values: C truncates towards zero.\<close>

definition s64_div :: "u64 \<Rightarrow> u64 \<Rightarrow> u64" where
  "s64_div a b = word_of_int (sint a sdiv sint b)"

text \<open>
  \<open>compute_offset_delay\<close>: the differences are taken on \<open>uint64_t\<close> and read as
  \<open>int64_t\<close>; the results are the pair \<open>(*offset_ms, *delay_ms)\<close>, the offset as the
  bits of an \<open>int64_t\<close>.
\<close>

definition compute_offset_delay :: "u64 \<Rightarrow> u64 \<Rightarrow> u64 \<Rightarrow> u64 \<Rightarrow> u64 \<times> u64" where
  "compute_offset_delay t1 t2 t3 t4 =
     (let o1 = s64_div ((t2 - t1) + (t3 - t4)) 2;
          d = (t4 - t1) - (t3 - t2)
      in (o1, if d <s 0 then 0 else d))"

text \<open>
  The ThreadX clock: the tick counter read by \<open>tx_time_get\<close> and written by
  \<open>tx_time_set\<close> (\<open>ULONG\<close>, 32 bits on this target), with the values written so far.
\<close>

record threadx_clock =
  tx_time :: u32
  tx_time_set_calls :: "u32 list"

definition tx_time_get :: "threadx_clock \<Rightarrow> u32" where
  "tx_time_get clk = tx_time clk"

definition tx_time_set :: "u32 \<Rightarrow> threadx_clock \<Rightarrow> threadx_clock" where
  "tx_time_set v clk = clk\<lparr>tx_time := v, tx_time_set_calls := tx_time_set_calls clk @ [v]\<rparr>"

text \<open>\<open>threadx_apply_offset_ms\<close>; \<open>tps\<close> is the macro \<open>TX_TIMER_TICKS_PER_SECOND\<close> of the
  ThreadX configuration, which is not part of the sources.\<close>

definition threadx_apply_offset_ms :: "u64 \<Rightarrow> u64 \<Rightarrow> threadx_clock \<Rightarrow> threadx_clock" where
  "threadx_apply_offset_ms tps offset_ms clk =
     (if 30000 <s offset_ms \<or> offset_ms <s - 30000 then clk
      else
        let delta_ticks = s64_div (offset_ms * tps) 1000;
            cur = tx_time_get clk;
            new_ticks0 = (ucast cur :: u64) + delta_ticks;
            new_ticks = (if new_ticks0 <s 0 then 0 else new_ticks0)
        in tx_time_set (ucast new_ticks) clk)"

text \<open>The body of \<open>on_timesync\<close> for a response packet, once \<open>t1\<close>, \<open>t2\<close>, \<open>t3\<close> are
  copied out of the payload and \<open>t4\<close> is read from the clock.\<close>

definition on_timesync_response ::
  "u64 \<Rightarrow> u64 \<Rightarrow> u64 \<Rightarrow> u64 \<Rightarrow> u64 \<Rightarrow> threadx_clock \<Rightarrow> threadx_clock" where
  "on_timesync_response tps t1 t2 t3 t4 clk =
     threadx_apply_offset_ms tps (fst (compute_offset_delay t1 t2 t3 t4)) clk"

text \<open>Wrapping an integer into the range of \<open>int64_t\<close>.\<close>

definition s64 :: "int \<Rightarrow> int" where
  "s64 k = signed_take_bit 63 k"

section \<open>Properties\<close>

subsection \<open>DLC codec\<close>

lemmas FDCAN_DLC_defs =
  FDCAN_DLC_BYTES_0_def FDCAN_DLC_BYTES_1_def FDCAN_DLC_BYTES_2_def FDCAN_DLC_BYTES_3_def
  FDCAN_DLC_BYTES_4_def FDCAN_DLC_BYTES_5_def FDCAN_DLC_BYTES_6_def FDCAN_DLC_BYTES_7_def
  FDCAN_DLC_BYTES_8_def FDCAN_DLC_BYTES_12_def FDCAN_DLC_BYTES_16_def FDCAN_DLC_BYTES_20_def
  FDCAN_DLC_BYTES_24_def FDCAN_DLC_BYTES_32_def FDCAN_DLC_BYTES_48_def FDCAN_DLC_BYTES_64_def

lemma dlc_code_cases:
  assumes "(d::u32) \<le> 15"
  shows "d \<in> {0, 1, 2, 3, 4, 5, 6, 7, 8, 9, 10, 11, 12, 13, 14, 15}"
proof -
  have "unat d \<le> 15" using assms by (simp add: word_le_nat_alt)
  then have "unat d \<in> {0, 1, 2, 3, 4, 5, 6, 7, 8, 9, 10, 11, 12, 13, 14, 15}"
    by simp arith
  then show ?thesis by (simp add: word_unat_eq_iff)
qed

lemma len_to_dlc_to_len: "d \<le> 15 \<Longrightarrow> can_bus_len_to_dlc (can_bus_dlc_to_len d) = d"
  by (drule dlc_code_cases)
     (auto simp: can_bus_len_to_dlc_def can_bus_dlc_to_len_def dlc_map_def FDCAN_DLC_defs)

lemma dlc_to_len_to_dlc_ge: "L \<le> 64 \<Longrightarrow> L \<le> can_bus_dlc_to_len (can_bus_len_to_dlc L)"
  by (simp add: can_bus_len_to_dlc_def can_bus_dlc_to_len_def dlc_map_def FDCAN_DLC_defs)

lemma dlc_to_len_to_dlc_eq:
  "(can_bus_dlc_to_len (can_bus_len_to_dlc L) = L) = (L \<in> set dlc_map)"
  by (auto simp add: can_bus_len_to_dlc_def can_bus_dlc_to_len_def dlc_map_def FDCAN_DLC_defs)

lemma dlc_64: "can_bus_len_to_dlc 64 = FDCAN_DLC_BYTES_64"
  and dlc_64_len: "can_bus_dlc_to_len FDCAN_DLC_BYTES_64 = 64"
  by (simp_all add: can_bus_len_to_dlc_def can_bus_dlc_to_len_def dlc_map_def FDCAN_DLC_defs)

text \<open>
  C8 (as stated, for every length): \<open>dlc_to_len (len_to_dlc L) \<ge> L\<close>. It fails for
  \<open>L = 65\<close>: 65 is no table length, \<open>can_bus_len_to_dlc\<close> answers the sentinel
  \<open>0xFFFFFFFF\<close>, whose low four bits select the table entry 64.
\<close>

theorem dlc_round_trip_counterexample:
  "can_bus_len_to_dlc 65 = 0xFFFFFFFF \<and> can_bus_dlc_to_len (can_bus_len_to_dlc 65) = 64
   \<and> \<not> (65 \<le> can_bus_dlc_to_len (can_bus_len_to_dlc 65))"
  by (simp add: can_bus_len_to_dlc_def can_bus_dlc_to_len_def dlc_map_def)

text \<open>
  C8 (amended): \<open>len_to_dlc (dlc_to_len d) = d\<close> for every valid DLC code \<open>d\<close> (0 to 15);
  \<open>dlc_to_len (len_to_dlc L) \<ge> L\<close> for every length \<open>L \<le> 64\<close>; and, for every length,
  \<open>dlc_to_len (len_to_dlc L) = L\<close> exactly when \<open>L\<close> is one of the 16 table lengths.
\<close>

theorem dlc_round_trip:
  "(d \<le> 15 \<longrightarrow> can_bus_len_to_dlc (can_bus_dlc_to_len d) = d) \<and>
   (L \<le> 64 \<longrightarrow> L \<le> can_bus_dlc_to_len (can_bus_len_to_dlc L)) \<and>
   ((can_bus_dlc_to_len (can_bus_len_to_dlc L) = L) =
      (L \<in> {0, 1, 2, 3, 4, 5, 6, 7, 8, 12, 16, 20, 24, 32, 48, 64}))"
  using len_to_dlc_to_len [of d] dlc_to_len_to_dlc_ge [of L] dlc_to_len_to_dlc_eq [of L]
  by (simp add: dlc_map_def)

theorem dlc_round_trip_witness:
  "(9::u32) \<le> 15 \<and> can_bus_len_to_dlc (can_bus_dlc_to_len 9) = 9 \<and>
   (33::nat) \<le> 64 \<and> 33 \<le> can_bus_dlc_to_len (can_bus_len_to_dlc 33) \<and>
   can_bus_dlc_to_len (can_bus_len_to_dlc 33) \<noteq> 33"
  using dlc_round_trip [of 9 33] by simp

subsection \<open>The RX ring\<close>

lemma rb_next_lt: "unat (rb_next v) < 64"
  by (simp add: rb_next_def Let_def CAN_BUS_RX_RING_DEPTH_def)

lemma ring_dist_drop: "h < 64 \<Longrightarrow> t < 64 \<Longrightarrow> 0 < ring_dist h t \<Longrightarrow> ring_dist h (ring_succ t) = ring_dist h t - 1"
  unfolding ring_dist_def ring_succ_def 
  by (cases "t \<le> h"; cases "t = 63") simp_all

lemma ring_dist_write: "h < 64 \<Longrightarrow> t < 64 \<Longrightarrow> ring_dist h t < 63 \<Longrightarrow> ring_dist (ring_succ h) t = ring_dist h t + 1"
  unfolding ring_dist_def ring_succ_def 
  apply (cases "t \<le> h"; cases "h = 63") 
  apply simp_all
  apply linarith+
  done

lemma ring_dist_full: "h < 64 \<Longrightarrow> t < 64 \<Longrightarrow> (ring_succ h = t) = (ring_dist h t = 63)"
  unfolding ring_dist_def ring_succ_def 
  apply (cases "t \<le> h"; cases "h = 63") apply simp_all
  apply linarith+
  done

lemma ring_idx_succ: "t < 64 \<Longrightarrow> k < 63 \<Longrightarrow> (ring_succ t + k) mod 64 = (t + Suc k) mod 64"
  unfolding ring_dist_def ring_succ_def by (cases "t = 63") simp_all

lemma ring_idx_head: "h < 64 \<Longrightarrow> t < 64 \<Longrightarrow> k \<le> ring_dist h t \<Longrightarrow> ((t + k) mod 64 = h) = (k = ring_dist h t)"
  unfolding ring_dist_def ring_succ_def 
  apply (cases "t \<le> h"; cases "t + k < 64") apply (simp_all add: mod_if)
  apply linarith+
  done

lemma ring_dist_le: "h < 64 \<Longrightarrow> t < 64 \<Longrightarrow> ring_dist h t \<le> 63"
  unfolding ring_dist_def by (cases "t \<le> h") simp_all

lemma ring_dist_empty: "h < 64 \<Longrightarrow> t < 64 \<Longrightarrow> (h = t) = (ring_dist h t = 0)"
  unfolding ring_dist_def by (simp split: if_splits)

lemma ring_dist_mod: "h < 64 \<Longrightarrow> t < 64 \<Longrightarrow> (h + 64 - t) mod 64 = ring_dist h t"
  unfolding ring_dist_def
  by (cases "t \<le> h") (simp_all add: mod_if)

lemma rb_next_unat: "unat v < 64 \<Longrightarrow> unat (rb_next v) = ring_succ (unat v)"
  by (auto simp: rb_next_def Let_def CAN_BUS_RX_RING_DEPTH_def unat_word_ariths ring_succ_def)

lemma rb_count_nat: "rb_inv r \<Longrightarrow> rb_count r = ring_dist (unat (g_rx_head r)) (unat (g_rx_tail r))"
  unfolding rb_count_def rb_inv_def CAN_BUS_RX_RING_DEPTH_def by (simp add: ring_dist_mod)

lemma rb_full_iff: "rb_inv r \<Longrightarrow> rb_is_full r = (rb_count r = 63)"
  unfolding rb_is_full_def word_unat_eq_iff
  by (simp add: rb_count_nat rb_next_unat rb_inv_def ring_dist_full)

lemma rb_empty_iff: "rb_inv r \<Longrightarrow> (g_rx_head r = g_rx_tail r) = (rb_count r = 0)"
  unfolding word_unat_eq_iff
  by (simp add: rb_count_nat rb_inv_def ring_dist_empty)

lemma rb_count_le: "rb_inv r \<Longrightarrow> rb_count r \<le> 63"
  by (simp add: rb_count_nat rb_inv_def ring_dist_le)

lemma rb_inv_init: "rb_inv rb_init"
  by (simp add: rb_inv_def rb_init_def CAN_BUS_RX_RING_DEPTH_def)

lemma rb_contents_init: "rb_contents rb_init = []"
  by (simp add: rb_contents_def rb_count_def rb_init_def CAN_BUS_RX_RING_DEPTH_def)

text \<open>Dropping the oldest frame.\<close>
lemma rb_drop_contents:
  assumes "rb_inv r" "rb_count r > 0"
  shows "rb_inv (r\<lparr>g_rx_tail := rb_next (g_rx_tail r)\<rparr>)"
    and "rb_count (r\<lparr>g_rx_tail := rb_next (g_rx_tail r)\<rparr>) = rb_count r - 1"
    and "rb_contents (r\<lparr>g_rx_tail := rb_next (g_rx_tail r)\<rparr>) = tl (rb_contents r)"
    and "rb_contents r \<noteq> []" and "hd (rb_contents r) = g_rx_ring r ! unat (g_rx_tail r)"
proof -
  let ?r = "r\<lparr>g_rx_tail := rb_next (g_rx_tail r)\<rparr>"
  have h: "unat (g_rx_head r) < 64" and t: "unat (g_rx_tail r) < 64" and l: "length (g_rx_ring r) = 64"
    using assms(1) by (simp_all add: rb_inv_def)
  show i: "rb_inv ?r" using assms by (simp add: rb_inv_def rb_next_lt)
  show c: "rb_count ?r = rb_count r - 1"
    using assms(2) h t
    by (simp add: rb_count_nat[OF i] rb_count_nat[OF assms(1)] rb_next_unat ring_dist_drop)
  have cl: "rb_count r \<le> 63" by (rule rb_count_le[OF assms(1)])
  show "rb_contents ?r = tl (rb_contents r)"
  proof (rule nth_equalityI)
    show "length (rb_contents ?r) = length (tl (rb_contents r))"
      by (simp add: rb_contents_def c)
  next
    fix k assume "k < length (rb_contents ?r)"
    then have k: "k < rb_count r - 1" by (simp add: rb_contents_def c)
    have "(unat (rb_next (g_rx_tail r)) + k) mod 64 = (unat (g_rx_tail r) + Suc k) mod 64"
      using t k cl by (simp add: rb_next_unat ring_idx_succ)
    then show "rb_contents ?r ! k = tl (rb_contents r) ! k"
      using k by (simp add: rb_contents_def c nth_tl)
  qed
  show "rb_contents r \<noteq> []" using assms(2) by (simp add: rb_contents_def)
  show "hd (rb_contents r) = g_rx_ring r ! unat (g_rx_tail r)"
    using assms(2) t by (simp add: rb_contents_def hd_map hd_upt)
qed

lemma rb_write_contents:
  assumes "rb_inv r" "rb_count r < 63"
  shows "rb_inv (r\<lparr>g_rx_ring := (g_rx_ring r)[unat (g_rx_head r) := x], g_rx_head := rb_next (g_rx_head r)\<rparr>)"
    and "rb_contents (r\<lparr>g_rx_ring := (g_rx_ring r)[unat (g_rx_head r) := x], g_rx_head := rb_next (g_rx_head r)\<rparr>) = rb_contents r @ [x]"
proof -
  let ?r = "r\<lparr>g_rx_ring := (g_rx_ring r)[unat (g_rx_head r) := x], g_rx_head := rb_next (g_rx_head r)\<rparr>"
  show i: "rb_inv ?r" using assms by (simp add: rb_inv_def rb_next_lt)
  have h: "unat (g_rx_head r) < 64" and t: "unat (g_rx_tail r) < 64" and l: "length (g_rx_ring r) = 64"
    using assms(1) by (simp_all add: rb_inv_def)
  have c0: "rb_count r = ring_dist (unat (g_rx_head r)) (unat (g_rx_tail r))"
    by (rule rb_count_nat[OF assms(1)])
  have c: "rb_count ?r = rb_count r + 1"
    using assms(2) h t 
    by (simp add: rb_count_nat[OF i] c0 rb_next_unat ring_dist_write)
  show "rb_contents ?r = rb_contents r @ [x]"
  proof (rule nth_equalityI)
    show "length (rb_contents ?r) = length (rb_contents r @ [x])"
      by (simp add: rb_contents_def c)
  next
    fix k assume "k < length (rb_contents ?r)"
    then have k: "k < rb_count r + 1" by (simp add: rb_contents_def c)
    show "rb_contents ?r ! k = (rb_contents r @ [x]) ! k"
    proof (cases "k < rb_count r")
      case True
      then have "(unat (g_rx_tail r) + k) mod 64 \<noteq> unat (g_rx_head r)"
        using h t ring_idx_head[of "unat (g_rx_head r)" "unat (g_rx_tail r)" k] by (simp add: c0)
      then show ?thesis using True k by (simp add: rb_contents_def c nth_append)
    next
      case False
      then have e: "k = rb_count r" using k by simp
      have "(unat (g_rx_tail r) + k) mod 64 = unat (g_rx_head r)"
        using h t ring_idx_head[of "unat (g_rx_head r)" "unat (g_rx_tail r)" k] by (simp add: e c0)
      then show ?thesis using h l by (simp add: rb_contents_def c nth_append e)
    qed
  qed
qed

lemma rb_push_contents:
  assumes "rb_inv r"
  shows "rb_inv (rb_push_drop_oldest sid dat len r)"
    and "rb_contents (rb_push_drop_oldest sid dat len r) =
          (if rb_is_full r then tl (rb_contents r) else rb_contents r) @
          [rb_store (g_rx_ring r ! unat (g_rx_head r)) sid dat len]"
proof -
  let ?r1 = "if rb_is_full r then r\<lparr>g_rx_tail := rb_next (g_rx_tail r)\<rparr> else r"
  have p: "rb_push_drop_oldest sid dat len r =
     ?r1\<lparr>g_rx_ring := (g_rx_ring ?r1)[unat (g_rx_head ?r1) := rb_store (g_rx_ring r ! unat (g_rx_head r)) sid dat len],
          g_rx_head := rb_next (g_rx_head ?r1)\<rparr>"
    by (simp add: rb_push_drop_oldest_def rb_store_def Let_def)
  have i1: "rb_inv ?r1" and c1: "rb_count ?r1 < 63"
    and k1: "rb_contents ?r1 = (if rb_is_full r then tl (rb_contents r) else rb_contents r)"
    using assms rb_drop_contents(1,2,3)[OF assms] rb_count_le[OF assms]
    by (auto simp: rb_full_iff)
  show "rb_inv (rb_push_drop_oldest sid dat len r)"
    unfolding p by (rule rb_write_contents(1)[OF i1 c1])
  show "rb_contents (rb_push_drop_oldest sid dat len r) =
          (if rb_is_full r then tl (rb_contents r) else rb_contents r) @
          [rb_store (g_rx_ring r ! unat (g_rx_head r)) sid dat len]"
    unfolding p rb_write_contents(2)[OF i1 c1] k1 ..
qed

lemma rb_pop_contents:
  assumes "rb_inv r"
  shows "rb_pop r = (case rb_contents r of [] \<Rightarrow> None
           | f # fs \<Rightarrow> Some (f, r\<lparr>g_rx_tail := rb_next (g_rx_tail r)\<rparr>))"
    and "rb_contents r \<noteq> [] \<Longrightarrow> rb_inv (r\<lparr>g_rx_tail := rb_next (g_rx_tail r)\<rparr>)"
    and "rb_contents r \<noteq> [] \<Longrightarrow> rb_contents (r\<lparr>g_rx_tail := rb_next (g_rx_tail r)\<rparr>) = tl (rb_contents r)"
proof -
  have e: "(rb_contents r = []) = (rb_count r = 0)" by (simp add: rb_contents_def)
  show "rb_pop r = (case rb_contents r of [] \<Rightarrow> None
           | f # fs \<Rightarrow> Some (f, r\<lparr>g_rx_tail := rb_next (g_rx_tail r)\<rparr>))"
  proof (cases "rb_contents r")
    case Nil
    then show ?thesis using rb_empty_iff[OF assms] e by (simp add: rb_pop_def Let_def)
  next
    case (Cons f fs)
    then have "0 < rb_count r" using e by simp
    from rb_drop_contents(5)[OF assms this] Cons rb_empty_iff[OF assms] \<open>0 < rb_count r\<close>
    show ?thesis by (simp add: rb_pop_def Let_def)
  qed
  show "rb_contents r \<noteq> [] \<Longrightarrow> rb_inv (r\<lparr>g_rx_tail := rb_next (g_rx_tail r)\<rparr>)"
    using rb_drop_contents(1)[OF assms] e by simp
  show "rb_contents r \<noteq> [] \<Longrightarrow> rb_contents (r\<lparr>g_rx_tail := rb_next (g_rx_tail r)\<rparr>) = tl (rb_contents r)"
    using rb_drop_contents(3)[OF assms] e by simp
qed


lemma rb_apply_inv: "rb_inv r \<Longrightarrow> rb_inv (rb_apply x r)"
proof (cases x)
  case (Push sid dat len)
  assume "rb_inv r"
  then show ?thesis using Push by (simp add: rb_push_contents(1))
next
  case Pop
  assume a: "rb_inv r"
  show ?thesis
  proof (cases "rb_contents r")
    case Nil
    then show ?thesis using Pop a by (simp add: rb_pop_contents(1)[OF a])
  next
    case (Cons f fs)
    then show ?thesis using Pop a rb_pop_contents(2)[OF a] by (simp add: rb_pop_contents(1)[OF a])
  qed
qed

lemma rb_run_snoc: "rb_run (xs @ [x]) r = rb_apply x (rb_run xs r)"
  by (simp add: rb_run_def)

lemma rb_run_inv: "rb_inv r \<Longrightarrow> rb_inv (rb_run xs r)"
  by (induction xs rule: rev_induct) (simp_all add: rb_run_def rb_apply_inv)

lemma length_rb_contents: "length (rb_contents r) = rb_count r"
  by (simp add: rb_contents_def)

lemma frame_view_store:
  "push_ok (sid, dat, len) \<Longrightarrow> frame_view (rb_store slot sid dat len) = pushed_view (sid, dat, len)"
  by (auto simp: push_ok_def frame_view_def rb_store_def pushed_view_def memcpy_front_def
      Let_def word_less_nat_alt min_def not_less)

text \<open>Pushing into the empty ring keeps the most recent 63 frames.\<close>

lemma rb_push_all_contents:
  "\<forall>x \<in> set fs. push_ok x \<Longrightarrow>
   map frame_view (rb_contents (rb_run (map push_op fs) rb_init))
     = drop (length fs - 63) (map pushed_view fs)"
proof (induction fs rule: rev_induct)
  case Nil
  show ?case by (simp add: rb_run_def rb_contents_init)
next
  case (snoc x xs)
  let ?r = "rb_run (map push_op xs) rb_init"
  obtain sid dat len where x: "x = (sid, dat, len)" by (cases x) auto
  have inv: "rb_inv ?r" by (rule rb_run_inv[OF rb_inv_init])
  have ih: "map frame_view (rb_contents ?r) = drop (length xs - 63) (map pushed_view xs)"
    using snoc by simp
  have ok: "push_ok (sid, dat, len)" using snoc.prems x by simp
  have len: "rb_count ?r = min (length xs) 63"
    using arg_cong[OF ih, of length] by (simp add: length_rb_contents min_def)
  have full: "rb_is_full ?r = (63 \<le> length xs)"
    by (simp add: rb_full_iff[OF inv] len min_def)
  have "map frame_view (rb_contents (rb_run (map push_op (xs @ [x])) rb_init))
      = map frame_view ((if rb_is_full ?r then tl (rb_contents ?r) else rb_contents ?r)
          @ [rb_store (g_rx_ring ?r ! unat (g_rx_head ?r)) sid dat len])"
    by (simp add: rb_run_snoc x push_op_def rb_push_contents(2)[OF inv])
  also have "\<dots> = (if 63 \<le> length xs then tl (drop (length xs - 63) (map pushed_view xs))
                    else drop (length xs - 63) (map pushed_view xs)) @ [pushed_view x]"
    by (simp add: full map_tl ih frame_view_store[OF ok] x)
  also have "\<dots> = drop (length (xs @ [x]) - 63) (map pushed_view (xs @ [x]))"
  proof (cases "63 \<le> length xs")
    case True
    then have "Suc (length xs) - 63 = Suc (length xs - 63)" by simp
    with True show ?thesis by (simp add: drop_Suc tl_drop)
  next
    case False
    then show ?thesis by simp
  qed
  finally show ?case .
qed

lemma rb_pop_n_contents:
  "rb_inv r \<Longrightarrow> fst (rb_pop_n n r) = take n (rb_contents r) \<and>
     rb_inv (snd (rb_pop_n n r)) \<and> rb_contents (snd (rb_pop_n n r)) = drop n (rb_contents r)"
proof (induction n arbitrary: r)
  case 0
  then show ?case by simp
next
  case (Suc n)
  show ?case
  proof (cases "rb_contents r")
    case Nil
    then show ?thesis using Suc.prems by (simp add: rb_pop_contents(1))
  next
    case (Cons f fs)
    let ?r1 = "r\<lparr>g_rx_tail := rb_next (g_rx_tail r)\<rparr>"
    have i1: "rb_inv ?r1" and c1: "rb_contents ?r1 = fs"
      using rb_pop_contents(2,3)[OF Suc.prems] Cons by simp_all
    from Suc.IH[OF i1] show ?thesis
      using Cons by (simp add: rb_pop_contents(1)[OF Suc.prems] c1 split_beta)
  qed
qed

lemma test_frames_len: "length (test_frames n) = n"
  by (simp add: test_frames_def del: upt_Suc)

lemma test_frames_ok: "list_all push_ok (test_frames n)"
  by (simp add: list_all_iff test_frames_def push_ok_def test_frame_def del: upt_Suc)

text \<open>
  C2 (as stated): after 65 pushes into the empty ring, the first pop returns frame 2.
  It returns frame 3: the ring's full test \<open>rb_next head = tail\<close> leaves one slot
  unused, so the 64th push already evicts frame 1 and the 65th evicts frame 2.
\<close>

theorem rb_overflow_counterexample:
  "rb_first_id (rb_run (map push_op (test_frames 65)) rb_init) = Some 3 \<and>
   rb_first_id (rb_run (map push_op (test_frames 65)) rb_init) \<noteq> Some 2"
proof -
  let ?r = "rb_run (map push_op (test_frames 65)) rb_init"
  have inv: "rb_inv ?r" by (rule rb_run_inv[OF rb_inv_init])
  have c: "map frame_view (rb_contents ?r) = drop 2 (map pushed_view (test_frames 65))"
    using rb_push_all_contents[of "test_frames 65"] test_frames_ok[of 65]
    by (simp add: list_all_iff test_frames_len)
  have l: "length (rb_contents ?r) = 63"
    using arg_cong[OF c, of length] by (simp add: test_frames_len)
  have "frame_view (rb_contents ?r ! 0) = pushed_view (test_frames 65 ! 2)"
    using arg_cong[OF c, of "\<lambda>xs. xs ! 0"] l by (simp add: test_frames_len)
  moreover have "test_frames 65 ! 2 = test_frame 3"
    by (simp add: test_frames_def eval_nat_numeral del: upt_Suc)
  ultimately have v: "fst (frame_view (rb_contents ?r ! 0)) = 3"
    by (simp add: pushed_view_def test_frame_def)
  obtain f fs where fs: "rb_contents ?r = f # fs"
    using l by (cases "rb_contents ?r") simp_all
  have "rb_first_id ?r = Some 3"
    using v by (simp add: rb_first_id_def rb_pop_contents(1)[OF inv] fs frame_view_def)
  then show ?thesis by simp
qed

text \<open>
  C2 (amended): the push follows the drop-oldest policy: when the ring is full, it
  advances tail by one, which evicts the oldest frame, and then writes the new frame
  behind the newest. After pushing 65 frames into the empty depth-64 ring with no
  pop in between, the pops return the frames 3 to 65 in order: the first pop returns
  frame 3 (frames 1 and 2 were dropped) and the last, 63rd, pop returns frame 65.
\<close>

theorem rb_drop_oldest_policy:
  "(rb_inv r \<and> rb_is_full r \<longrightarrow>
      g_rx_tail (rb_push_drop_oldest sid dat len r) = rb_next (g_rx_tail r) \<and>
      rb_contents (rb_push_drop_oldest sid dat len r)
        = tl (rb_contents r) @ [rb_store (g_rx_ring r ! unat (g_rx_head r)) sid dat len]) \<and>
   (length fs = 65 \<and> list_all push_ok fs \<longrightarrow>
      map frame_view (fst (rb_pop_n 65 (rb_run (map push_op fs) rb_init)))
        = map pushed_view (drop 2 fs) \<and>
      rb_pop (snd (rb_pop_n 65 (rb_run (map push_op fs) rb_init))) = None)"
proof (intro conjI impI)
  assume a: "rb_inv r \<and> rb_is_full r"
  then show "g_rx_tail (rb_push_drop_oldest sid dat len r) = rb_next (g_rx_tail r)"
    by (simp add: rb_push_drop_oldest_def Let_def)
  show "rb_contents (rb_push_drop_oldest sid dat len r)
        = tl (rb_contents r) @ [rb_store (g_rx_ring r ! unat (g_rx_head r)) sid dat len]"
    using a rb_push_contents(2)[of r sid dat len] by simp
next
  assume b: "length fs = 65 \<and> list_all push_ok fs"
  let ?r = "rb_run (map push_op fs) rb_init"
  have inv: "rb_inv ?r" by (rule rb_run_inv[OF rb_inv_init])
  have c: "map frame_view (rb_contents ?r) = drop 2 (map pushed_view fs)"
    using rb_push_all_contents[of fs] b by (simp add: list_all_iff)
  have l: "length (rb_contents ?r) = 63"
    using arg_cong[OF c, of length] b by simp
  show "map frame_view (fst (rb_pop_n 65 ?r)) = map pushed_view (drop 2 fs)"
    using rb_pop_n_contents[OF inv, of 65] c l by (simp add: drop_map)
  have "rb_contents (snd (rb_pop_n 65 ?r)) = []" "rb_inv (snd (rb_pop_n 65 ?r))"
    using rb_pop_n_contents[OF inv, of 65] l by simp_all
  then show "rb_pop (snd (rb_pop_n 65 ?r)) = None"
    by (simp add: rb_pop_contents(1))
qed

theorem rb_drop_oldest_policy_witness:
  "rb_inv (rb_init\<lparr>g_rx_head := 63\<rparr>) \<and> rb_is_full (rb_init\<lparr>g_rx_head := 63\<rparr>) \<and>
   length (test_frames 65) = 65 \<and> list_all push_ok (test_frames 65) \<and>
   g_rx_tail (rb_push_drop_oldest 64 (replicate 64 64) 64 (rb_init\<lparr>g_rx_head := 63\<rparr>)) = 1 \<and>
   map frame_view (fst (rb_pop_n 65 (rb_run (map push_op (test_frames 65)) rb_init)))
     = map pushed_view (drop 2 (test_frames 65))"
proof -
  let ?r = "rb_init\<lparr>g_rx_head := 63\<rparr>"
  have h1: "rb_inv ?r \<and> rb_is_full ?r"
    by (simp add: rb_inv_def rb_init_def rb_is_full_def rb_next_def CAN_BUS_RX_RING_DEPTH_def)
  have h2: "length (test_frames 65) = 65 \<and> list_all push_ok (test_frames 65)"
    using test_frames_ok[of 65] by (simp add: test_frames_len)
  have h3: "rb_next (g_rx_tail ?r) = 1"
    by (simp add: rb_init_def rb_next_def CAN_BUS_RX_RING_DEPTH_def)
  from rb_drop_oldest_policy [of ?r 64 "replicate 64 64" 64 "test_frames 65"] h1 h2 h3
  show ?thesis by simp
qed

text \<open>
  C9: for every interleaving of pushes and pops that starts from the empty ring, head and
  tail stay in [0, 64) and the occupancy, (head - tail) mod 64, never exceeds 63: no
  sequence of pops yields more than 63 frames, one slot being given up to tell a full
  ring from an empty one.
\<close>

theorem rb_occupancy_bound:
  "unat (g_rx_head (rb_run ops rb_init)) < 64 \<and>
   unat (g_rx_tail (rb_run ops rb_init)) < 64 \<and>
   rb_count (rb_run ops rb_init) \<le> 63 \<and>
   (int (unat (g_rx_head (rb_run ops rb_init))) - int (unat (g_rx_tail (rb_run ops rb_init))))
      mod 64 = int (rb_count (rb_run ops rb_init)) \<and>
   length (fst (rb_pop_n n (rb_run ops rb_init))) \<le> 63"
proof -
  let ?r = "rb_run ops rb_init"
  have inv: "rb_inv ?r" by (rule rb_run_inv[OF rb_inv_init])
  have c: "rb_count ?r \<le> 63" by (rule rb_count_le[OF inv])
  have h: "unat (g_rx_head ?r) < 64" and t: "unat (g_rx_tail ?r) < 64"
    using inv by (simp_all add: rb_inv_def)
  have "int (unat (g_rx_head ?r)) - int (unat (g_rx_tail ?r))
          = int (unat (g_rx_head ?r) + 64 - unat (g_rx_tail ?r)) - 64"
    using t by simp
  then have m: "(int (unat (g_rx_head ?r)) - int (unat (g_rx_tail ?r))) mod 64
          = int (rb_count ?r)"
    by (simp add: rb_count_def CAN_BUS_RX_RING_DEPTH_def zmod_int)
  have "length (fst (rb_pop_n n ?r)) \<le> 63"
    using rb_pop_n_contents[OF inv, of n] c by (simp add: length_rb_contents)
  with h t c m show ?thesis by simp
qed

subsection \<open>The receive path\<close>

lemma notify_fanout:
  "can_bus_notify_rx dat n st = st\<lparr>rx_calls := rx_calls st @ fanout (g_subs st) (take n dat)\<rparr>"
  by (simp add: can_bus_notify_rx_def)

lemma fanout_no_subs [simp]: "fanout (replicate n \<lparr>cb = None, user = u\<rparr>) bytes = []"
  by (induction n) simp_all

lemma handle_rx_frame_parts:
  "handle_rx_frame f now st =
     (if is_frag f then
        if hdr_bad (hdr_load (fr_data f)) then (Hdr_Rejected, st)
        else
          let ig = reasm_get_slot (fr_std_id f) (hdr_seq (hdr_load (fr_data f))) now (g_reasm st);
              r = slot_accept (hdr_load (fr_data f)) (drop sizeof_hdr (fr_data f)) (fr_len f - 8)
                    now (snd ig ! fst ig)
          in (fst r,
              (case snd (snd r) of None \<Rightarrow> st | Some bn \<Rightarrow> can_bus_notify_rx (fst bn) (snd bn) st)
                \<lparr>g_reasm := (snd ig)[fst ig := fst (snd r)]\<rparr>)
      else (Raw_Delivered, can_bus_notify_rx (fr_data f) (unat (fr_len f)) st))"
  unfolding handle_rx_frame_def is_frag_def hdr_bad_def slot_accept_def
  by (simp add: Let_def split_beta)

lemma slot_accept_path: "fst (slot_accept hdr payload n now s) \<noteq> Hdr_Rejected"
  and slot_accept_path_raw: "fst (slot_accept hdr payload n now s) \<noteq> Raw_Delivered"
  unfolding slot_accept_def by (simp_all add: Let_def)

text \<open>
  C5: a received frame that is recognised as a fragment (at least 8 bytes, magic
  \<open>0x5344\<close>) leaves by the header rejection exactly when \<open>frag_cnt = 0\<close>, or
  \<open>frag_idx \<ge> frag_cnt\<close>, or \<open>frag_cnt > 64\<close>, or \<open>total_len = 0\<close>, or \<open>total_len > 2048\<close>;
  a rejected frame is dropped: no slot is modified and no subscriber is called.
\<close>

theorem hdr_rejection:
  assumes "unat (fr_len f) \<ge> 8"
    and "hdr_magic (hdr_load (fr_data f)) = 0x5344"
  shows "((fst (handle_rx_frame f now st) = Hdr_Rejected) =
           (hdr_frag_cnt (hdr_load (fr_data f)) = 0 \<or>
            hdr_frag_idx (hdr_load (fr_data f)) \<ge> hdr_frag_cnt (hdr_load (fr_data f)) \<or>
            unat (hdr_frag_cnt (hdr_load (fr_data f))) > 64 \<or>
            hdr_total_len (hdr_load (fr_data f)) = 0 \<or>
            unat (hdr_total_len (hdr_load (fr_data f))) > 2048)) \<and>
         (fst (handle_rx_frame f now st) = Hdr_Rejected \<longrightarrow>
            snd (handle_rx_frame f now st) = st)"
proof -
  have fr: "is_frag f"
    using assms by (simp add: is_frag_def sizeof_hdr_def CAN_BUS_FRAG_MAGIC_def)
  show ?thesis
  proof (cases "hdr_bad (hdr_load (fr_data f))")
    case True
    then have "handle_rx_frame f now st = (Hdr_Rejected, st)"
      using fr by (simp add: handle_rx_frame_parts)
    then show ?thesis
      using True
      by (simp add: hdr_bad_def CAN_BUS_REASM_MAX_FRAGS_def CAN_BUS_REASM_MAX_BYTES_def)
  next
    case False
    then have "fst (handle_rx_frame f now st) \<noteq> Hdr_Rejected"
      using fr by (simp add: handle_rx_frame_parts Let_def slot_accept_path)
    then show ?thesis
      using False
      by (simp add: hdr_bad_def CAN_BUS_REASM_MAX_FRAGS_def CAN_BUS_REASM_MAX_BYTES_def)
  qed
qed

theorem hdr_rejection_witness:
  "unat (fr_len bad_cnt_frame) \<ge> 8 \<and> hdr_magic (hdr_load (fr_data bad_cnt_frame)) = 0x5344 \<and>
   hdr_frag_cnt (hdr_load (fr_data bad_cnt_frame)) = 0 \<and>
   fst (handle_rx_frame bad_cnt_frame 0 rx_one_sub) = Hdr_Rejected \<and>
   snd (handle_rx_frame bad_cnt_frame 0 rx_one_sub) = rx_one_sub"
proof -
  have h: "unat (fr_len bad_cnt_frame) \<ge> 8" "hdr_magic (hdr_load (fr_data bad_cnt_frame)) = 0x5344"
    and c: "hdr_frag_cnt (hdr_load (fr_data bad_cnt_frame)) = 0"
    by (simp_all add: bad_cnt_frame_def mk_frame_def hdr_load_def le16_def)
  from hdr_rejection [OF h, of 0 rx_one_sub] c h show ?thesis by simp
qed

subsection \<open>Slot lookup and the slot-level steps\<close>

lemma slots_upt: "[0..<CAN_BUS_REASM_SLOTS] = [0, 1, 2, 3]"
  by (simp add: CAN_BUS_REASM_SLOTS_def upt_rec)

lemma find_upt_Some:
  "find P [0..<n] = Some i \<Longrightarrow> i < n \<and> P i \<and> (\<forall>k<i. \<not> P k)"
  by (auto simp: find_Some_iff)

lemma find_upt_None: "find P [0..<n] = None \<Longrightarrow> k < n \<Longrightarrow> \<not> P k"
  by (auto simp: find_None_iff)

lemma find_upt_first:
  "i < n \<Longrightarrow> P i \<Longrightarrow> (\<forall>k<i. \<not> P k) \<Longrightarrow> find P [0..<n] = Some i"
  by (auto simp: find_Some_iff intro!: exI[of _ i])

lemma reasm_stalest_lt: "reasm_stalest now g < CAN_BUS_REASM_SLOTS"
  unfolding reasm_stalest_def slots_upt
  by (simp add: Let_def CAN_BUS_REASM_SLOTS_def)


lemma slot_accept_steps:
  "slot_accept hdr payload n now s =
     (if frag_cnt s \<noteq> 0 \<and> frag_cnt s \<noteq> hdr_frag_cnt hdr then (Param_Mismatch, reasm_reset s, None)
      else if frag_cnt s \<noteq> 0 \<and> total_len s \<noteq> hdr_total_len hdr then
        (Param_Mismatch, reasm_reset s, None)
      else if slot_off hdr (slot_params hdr n s) \<ge> ucast (total_len (slot_params hdr n s)) then
        (Offset_Rejected, slot_params hdr n s, None)
      else if unat (got_count (slot_mark hdr payload n (slot_params hdr n s)))
                = unat (frag_cnt (slot_params hdr n s)) then
        (Msg_Completed,
         reasm_reset ((slot_mark hdr payload n (slot_params hdr n s))\<lparr>last_tick_ms := now\<rparr>),
         Some (buf (slot_mark hdr payload n (slot_params hdr n s)),
               unat (total_len (slot_params hdr n s))))
      else (Frag_Stored, (slot_mark hdr payload n (slot_params hdr n s))\<lparr>last_tick_ms := now\<rparr>,
            None))"
  unfolding slot_accept_def slot_params_def slot_off_def slot_take_def slot_mark_def
  by (simp add: Let_def)

lemma slot_params_keeps [simp]:
  "active (slot_params hdr n s) = active s"
  "last_tick_ms (slot_params hdr n s) = last_tick_ms s"
  "std_id (slot_params hdr n s) = std_id s"
  "seq (slot_params hdr n s) = seq s"
  "buf (slot_params hdr n s) = buf s"
  by (simp_all add: slot_params_def)

lemma slot_mark_keeps [simp]:
  "active (slot_mark hdr payload n s) = active s"
  "last_tick_ms (slot_mark hdr payload n s) = last_tick_ms s"
  "std_id (slot_mark hdr payload n s) = std_id s"
  "seq (slot_mark hdr payload n s) = seq s"
  "frag_cnt (slot_mark hdr payload n s) = frag_cnt s"
  "total_len (slot_mark hdr payload n s) = total_len s"
  "data_cap (slot_mark hdr payload n s) = data_cap s"
  by (simp_all add: slot_mark_def)

lemma reasm_reset_inactive [simp]: "active (reasm_reset s) = 0"
  by (simp add: reasm_reset_def)


subsection \<open>Handling frames and the staleness sweep\<close>



lemma handle_rx_frame_keeps [simp]:
  "g_subs (snd (handle_rx_frame f now st)) = g_subs st"
  "g_rx (snd (handle_rx_frame f now st)) = g_rx st"
  by (simp_all add: handle_rx_frame_parts Let_def notify_fanout split: option.splits)








lemma rx_handle_all_simps [simp]:
  "rx_handle_all now [] st = st"
  "rx_handle_all now (f # fs) st = rx_handle_all now fs (snd (handle_rx_frame f now st))"
  by (simp_all add: rx_handle_all_def rx_feed_def)

lemma rx_handle_all_append:
  "rx_handle_all now (fs @ gs) st = rx_handle_all now gs (rx_handle_all now fs st)"
  by (simp add: rx_handle_all_def rx_feed_def)










subsection \<open>The transmit path\<close>

declare send_frags.simps [simp del]

lemma send_bytes_64:
  assumes "g_hfdcan st \<noteq> None" and "64 \<le> length bs"
  shows "can_bus_send_bytes drv (Some bs) sid st =
           (drv (tx_calls st @ [(tx_header_64 sid, take 64 bs)]),
            st\<lparr>tx_calls := tx_calls st @ [(tx_header_64 sid, take 64 bs)]\<rparr>)"
proof -
  have l: "(if 64 < length bs then 64 else length bs) = 64" using assms(2) by simp
  have d: "can_bus_len_to_dlc (can_bus_round_up_fd_len 64) = FDCAN_DLC_BYTES_64"
    by (simp add: can_bus_round_up_fd_len_def dlc_64)
  have n: "FDCAN_DLC_BYTES_64 \<noteq> 0xFFFFFFFF" by (simp add: FDCAN_DLC_BYTES_64_def)
  have e: "bs \<noteq> []" using assms(2) by auto
  from assms(1) obtain h where h: "g_hfdcan st = Some h" by auto
  show ?thesis
    using e
    by (simp add: can_bus_send_bytes_def h l d n Let_def memcpy_front_def tx_header_64_def
        del: One_nat_def)
qed

lemma length_hdr_store [simp]: "length (hdr_store h) = 8"
  by (simp add: hdr_store_def)

lemma length_frag_chunk: "length (frag_chunk bs i) = min 56 (length bs - 56 * i)"
  by (simp add: frag_chunk_def)

lemma length_frag_wire [simp]: "length (frag_wire sq bs fcnt idx) = 64"
  by (simp add: frag_wire_def length_frag_chunk)

lemma loop_hdr:
  "\<lparr>hdr_magic = CAN_BUS_FRAG_MAGIC, hdr_seq = sq, hdr_frag_idx = idx, hdr_frag_cnt = fcnt,
     hdr_flags = (if idx = 0 then CAN_BUS_FRAG_F_FIRST else 0)
                   OR (if idx = fcnt - 1 then CAN_BUS_FRAG_F_LAST else 0),
     hdr_total_len = of_nat n\<rparr> = frag_hdr sq n fcnt idx"
  by (simp add: frag_hdr_def CAN_BUS_FRAG_MAGIC_def CAN_BUS_FRAG_F_FIRST_def CAN_BUS_FRAG_F_LAST_def)

lemma loop_frame:
  assumes "off = 56 * unat idx"
  shows "memcpy_at (memcpy_front (replicate 64 0) (hdr_store h) sizeof_hdr) sizeof_hdr (drop off bs)
           (if length bs - off > CAN_BUS_FRAG_WIRE_LEN - sizeof_hdr
            then CAN_BUS_FRAG_WIRE_LEN - sizeof_hdr else length bs - off)
         = hdr_store h @ frag_chunk bs (unat idx) @ replicate (56 - length (frag_chunk bs (unat idx))) 0"
proof -
  define tk where "tk = (if length bs - off > 56 then 56 else length bs - off)"
  have tk: "tk = length (frag_chunk bs (unat idx))"
    using assms by (simp add: length_frag_chunk min_def tk_def)
  have c: "take tk (drop off bs) = frag_chunk bs (unat idx)"
    using assms by (auto simp: frag_chunk_def min_def tk_def)
  have le: "tk \<le> 56" by (simp add: tk_def)
  have "memcpy_at (memcpy_front (replicate 64 0) (hdr_store h) 8) 8 (drop off bs) tk
         = hdr_store h @ take tk (drop off bs) @ replicate (56 - tk) 0"
    using le by (simp add: memcpy_at_def memcpy_front_def)
  then have "memcpy_at (memcpy_front (replicate 64 0) (hdr_store h) 8) 8 (drop off bs) tk
         = hdr_store h @ frag_chunk bs (unat idx) @ replicate (56 - length (frag_chunk bs (unat idx))) 0"
    by (simp only: c) (simp only: tk)
  then show ?thesis
    by (cases "56 < length bs - off")
       (simp_all add: sizeof_hdr_def CAN_BUS_FRAG_WIRE_LEN_def tk_def)
qed

lemma send_frags_calls:
  assumes "g_hfdcan st \<noteq> None" and "unat fcnt = (length bs + 55) div 56"
    and "idx < fcnt \<longrightarrow> off = 56 * unat idx"
    and "send_frags drv bs sid sq fcnt idx off st = (HAL_OK, st')"
  shows "tx_calls st' = tx_calls st @
           map (\<lambda>i. (tx_header_64 sid, frag_wire sq bs fcnt (of_nat i))) [unat idx..<unat fcnt] \<and>
         g_seq st' = g_seq st \<and> g_hfdcan st' = g_hfdcan st"
  using assms
proof (induction n \<equiv> "unat fcnt - unat idx" arbitrary: idx off st)
  case 0
  then have "\<not> idx < fcnt" by (simp add: word_less_nat_alt)
  then show ?case using "0.prems"(4) by (subst (asm) send_frags.simps) (simp add: word_less_nat_alt)
next
  case (Suc n)
  then have lt: "idx < fcnt" and ltn: "unat idx < unat fcnt" by (simp_all add: word_less_nat_alt)
  have off: "off = 56 * unat idx" using Suc.prems(3) lt by simp
  have "unat fcnt < 256" using unsigned_less[of fcnt, where ?'a = nat] by simp
  then have su: "unat (idx + 1) = unat idx + 1" using ltn by (simp add: unat_word_ariths)
  let ?frame = "frag_wire sq bs fcnt idx"
  let ?tk = "if length bs - off > CAN_BUS_FRAG_WIRE_LEN - sizeof_hdr
             then CAN_BUS_FRAG_WIRE_LEN - sizeof_hdr else length bs - off"
  let ?st1 = "st\<lparr>tx_calls := tx_calls st @ [(tx_header_64 sid, ?frame)]\<rparr>"
  have sb: "can_bus_send_bytes drv (Some ?frame) sid st
        = (drv (tx_calls st @ [(tx_header_64 sid, ?frame)]), ?st1)"
    using send_bytes_64[OF Suc.prems(1), of ?frame drv sid] by simp
  have step: "send_frags drv bs sid sq fcnt idx off st =
      (if drv (tx_calls st @ [(tx_header_64 sid, ?frame)]) \<noteq> HAL_OK
       then (drv (tx_calls st @ [(tx_header_64 sid, ?frame)]), ?st1)
       else send_frags drv bs sid sq fcnt (idx + 1) (off + ?tk) ?st1)"
    apply (subst send_frags.simps)
    apply (simp only: lt if_True loop_hdr Let_def loop_frame[OF off])
    apply (simp only: frag_wire_def[symmetric] sb split_conv)
    done
  have ok: "drv (tx_calls st @ [(tx_header_64 sid, ?frame)]) = HAL_OK"
    and rest: "send_frags drv bs sid sq fcnt (idx + 1) (off + ?tk) ?st1 = (HAL_OK, st')"
    using Suc.prems(4) unfolding step by (auto split: if_splits)
  have n: "n = unat fcnt - unat (idx + 1)" using Suc.hyps(2) su by simp
  have o: "idx + 1 < fcnt \<longrightarrow> off + ?tk = 56 * unat (idx + 1)"
  proof
    assume "idx + 1 < fcnt"
    then have "unat idx + 1 < (length bs + 55) div 56"
      using su Suc.prems(2) by (simp add: word_less_nat_alt)
    then have "56 * (unat idx + 1) < length bs" by simp
    then show "off + ?tk = 56 * unat (idx + 1)"
      using off su by (simp add: CAN_BUS_FRAG_WIRE_LEN_def sizeof_hdr_def)
  qed
  have g: "g_hfdcan ?st1 \<noteq> None" using Suc.prems(1) by simp
  from Suc.hyps(1)[OF n g Suc.prems(2) o rest]
  have ih: "tx_calls st' = tx_calls ?st1 @
           map (\<lambda>i. (tx_header_64 sid, frag_wire sq bs fcnt (of_nat i))) [unat (idx + 1)..<unat fcnt]"
    and k: "g_seq st' = g_seq st" "g_hfdcan st' = g_hfdcan st" by simp_all
  have "[unat idx..<unat fcnt] = unat idx # [unat (idx + 1)..<unat fcnt]"
    using ltn su by (simp add: upt_conv_Cons)
  then show ?case using ih k by simp
qed

lemma send_large_calls:
  assumes "can_bus_send_large drv (Some bs) sid st = (HAL_OK, st')"
  shows "bs \<noteq> [] \<and> (length bs + 55) div 56 \<le> 255 \<and>
         tx_calls st' = tx_calls st @
           map (\<lambda>i. (tx_header_64 sid,
                      frag_wire (g_seq st) bs (of_nat ((length bs + 55) div 56)) (of_nat i)))
             [0..<(length bs + 55) div 56] \<and>
         g_seq st' = g_seq st + 1"
proof -
  let ?cnt = "(55 + length bs) div 56"
  let ?st1 = "st\<lparr>g_seq := g_seq st + 1\<rparr>"
  have h: "g_hfdcan st \<noteq> None" and ne: "bs \<noteq> []" and le: "\<not> length bs > 0xFFFF"
    using assms by (auto simp: can_bus_send_large_def split: if_splits)
  have c0: "?cnt \<noteq> 0" using ne by (cases bs) simp_all
  have run: "can_bus_send_large drv (Some bs) sid st =
      (if ?cnt > 255 then (HAL_ERROR, ?st1)
       else send_frags drv bs sid (g_seq st) (of_nat ?cnt) 0 0 ?st1)"
  proof -
    from h obtain y where y: "g_hfdcan st = Some y" by auto
    show ?thesis
      using ne le c0
      by (simp add: can_bus_send_large_def y Let_def CAN_BUS_FRAG_WIRE_LEN_def sizeof_hdr_def)
  qed
  have c255: "?cnt \<le> 255" using assms unfolding run by (auto split: if_splits)
  then have sf: "send_frags drv bs sid (g_seq st) (of_nat ?cnt) 0 0 ?st1 = (HAL_OK, st')"
    using assms unfolding run by simp
  have u: "unat (of_nat ?cnt :: u8) = (length bs + 55) div 56"
    using c255 by (simp add: unat_of_nat add.commute)
  have g: "g_hfdcan ?st1 \<noteq> None" using h by simp
  have z: "(0::u8) < of_nat ?cnt \<longrightarrow> (0::nat) = 56 * unat (0::u8)" by simp
  from send_frags_calls[OF g u z sf] u
  show ?thesis using ne c255 by (simp add: add.commute)
qed

lemma le16_split: "le16 (ucast m) (ucast (drop_bit 8 m)) = (m :: u16)"
  unfolding le16_def
  by (rule bit_word_eqI) (auto simp: bit_simps)

lemma hdr_load_store: "hdr_load (hdr_store h @ rest) = h"
  by (simp add: hdr_load_def hdr_store_def le16_split)

lemma hdr_load_frag_wire: "hdr_load (frag_wire sq bs fcnt idx) = frag_hdr sq (length bs) fcnt idx"
  by (simp add: frag_wire_def hdr_load_store)

lemma drop_frag_wire:
  "drop 8 (frag_wire sq bs fcnt idx)
     = frag_chunk bs (unat idx) @ replicate (56 - length (frag_chunk bs (unat idx))) 0"
  by (simp add: frag_wire_def)

lemma frag_flags:
  "bit (hdr_flags (frag_hdr sq n fcnt idx)) k = ((k = 0 \<and> idx = 0) \<or> (k = 1 \<and> idx = fcnt - 1))"
  by (auto simp: frag_hdr_def bit_simps bit_or_iff bit_numeral_simps split: if_splits)

lemma ceil_div_56: "0 < (n::nat) \<Longrightarrow> 56 * ((n + 55) div 56 - 1) < n \<and> n \<le> 56 * ((n + 55) div 56)"
  by (simp add: algebra_simps) arith

lemma u16_low_byte: "n < 65536 \<Longrightarrow> (ucast (of_nat n :: u16) :: u8) = of_nat (n mod 256)"
  by (simp add: word_unat_eq_iff unsigned_ucast_eq unat_of_nat take_bit_eq_mod)

lemma u16_high_byte: "n < 65536 \<Longrightarrow> (ucast (drop_bit 8 (of_nat n :: u16)) :: u8) = of_nat (n div 256)"
proof -
  assume a: "n < 65536"
  then have b: "n div 256 < 256" by simp
  have "unat (drop_bit 8 (of_nat n :: u16)) = n div 256"
    using a by (simp add: unat_div_distrib unat_of_nat drop_bit_eq_div)
  then show ?thesis
    using b by (simp add: word_unat_eq_iff unsigned_ucast_eq unat_of_nat take_bit_eq_mod)
qed

lemma frag_wire_bytes:
  assumes "length bs < 65536"
  shows "take 8 (frag_wire sq bs fcnt idx) =
           [0x44, 0x53, sq, idx, fcnt, hdr_flags (frag_hdr sq (length bs) fcnt idx),
            of_nat (length bs mod 256), of_nat (length bs div 256)]"
  using assms
  by (simp add: frag_wire_def hdr_store_def frag_hdr_def u16_low_byte u16_high_byte)

lemma u8_idx:
  assumes "i < cnt" "cnt \<le> 255"
  shows "unat (of_nat i :: u8) = i" "unat (of_nat cnt :: u8) = cnt"
    "((of_nat i :: u8) = 0) = (i = 0)" "((of_nat i :: u8) = of_nat cnt - 1) = (i = cnt - 1)"
proof -
  show a: "unat (of_nat i :: u8) = i" and b: "unat (of_nat cnt :: u8) = cnt"
    using assms by (simp_all add: unat_of_nat)
  show "((of_nat i :: u8) = 0) = (i = 0)"
    using a by (simp add: word_unat_eq_iff)
  have "(1::u8) \<le> of_nat cnt" using b assms by (simp add: word_le_nat_alt)
  then have "unat ((of_nat cnt :: u8) - 1) = cnt - 1" using b by (simp add: unat_sub)
  then show "((of_nat i :: u8) = of_nat cnt - 1) = (i = cnt - 1)"
    using a by (simp add: word_unat_eq_iff)
qed

lemma length_loop_frame:
  "length (memcpy_at (memcpy_front (replicate 64 0) (hdr_store h) sizeof_hdr) sizeof_hdr (drop off bs)
           (if length bs - off > CAN_BUS_FRAG_WIRE_LEN - sizeof_hdr
            then CAN_BUS_FRAG_WIRE_LEN - sizeof_hdr else length bs - off)) = 64"
  by (simp add: memcpy_at_def memcpy_front_def sizeof_hdr_def CAN_BUS_FRAG_WIRE_LEN_def)

lemma send_frags_status:
  assumes "g_hfdcan st \<noteq> None" and "\<And>calls. drv calls = HAL_OK"
  shows "fst (send_frags drv bs sid sq fcnt idx off st) = HAL_OK"
  using assms(1)
proof (induction n \<equiv> "unat fcnt - unat idx" arbitrary: idx off st)
  case 0
  then have "\<not> idx < fcnt" by (simp add: word_less_nat_alt)
  then show ?case by (subst send_frags.simps) simp
next
  case (Suc n)
  then have lt: "idx < fcnt" and ltn: "unat idx < unat fcnt" by (simp_all add: word_less_nat_alt)
  have "unat fcnt < 256" using unsigned_less[of fcnt, where ?'a = nat] by simp
  then have su: "unat (idx + 1) = unat idx + 1" using ltn by (simp add: unat_word_ariths)
  have n: "n = unat fcnt - unat (idx + 1)" using Suc.hyps(2) su by simp
  show ?case
    apply (subst send_frags.simps)
    apply (simp only: lt if_True Let_def)
    apply (subst send_bytes_64[OF Suc.prems])
     apply (simp only: length_loop_frame)
    apply (simp only: split_conv assms(2) simp_thms if_False)
    apply (rule Suc.hyps(1)[OF n])
    using Suc.prems apply simp
    done
qed

lemma send_large_status:
  assumes "g_hfdcan st \<noteq> None" and "\<And>calls. drv calls = HAL_OK"
    and "bs \<noteq> []" and "length bs \<le> 14280"
  shows "fst (can_bus_send_large drv (Some bs) sid st) = HAL_OK"
proof -
  from assms(1) obtain y where y: "g_hfdcan st = Some y" by auto
  have c0: "(55 + length bs) div 56 \<noteq> 0" using assms(3) by (cases bs) simp_all
  have c1: "\<not> 255 < (55 + length bs) div 56" using assms(4) by simp
  have g: "g_hfdcan (st\<lparr>g_seq := g_seq st + 1\<rparr>) \<noteq> None" using y by simp
  show ?thesis
    using assms(3,4) c0 c1 send_frags_status[OF g assms(2)]
    by (simp add: can_bus_send_large_def y Let_def CAN_BUS_FRAG_WIRE_LEN_def sizeof_hdr_def)
qed

text \<open>
  C6: when \<open>can_bus_send_large\<close> succeeds on a buffer of \<open>L\<close> bytes, it hands
  \<open>ceil (L / 56)\<close> messages to the driver (the number \<open>c\<close> with
  \<open>56 (c - 1) < L \<le> 56 c\<close>). Message \<open>i\<close> has 64 bytes: the 8-byte little-endian
  header with magic \<open>0x5344\<close>, the sequence number, \<open>frag_idx = i\<close>, \<open>frag_cnt = c\<close>,
  the flags (FIRST set iff \<open>i = 0\<close>, LAST set iff \<open>i = c - 1\<close>) and \<open>total_len = L\<close>,
  followed by the \<open>i\<close>-th 56-byte chunk of the buffer, the last one zero-padded.
\<close>

theorem send_large_fragments:
  assumes "fst (can_bus_send_large drv (Some bs) sid st) = HAL_OK"
    and "i < (length bs + 55) div 56"
  shows "56 * ((length bs + 55) div 56 - 1) < length bs \<and>
         length bs \<le> 56 * ((length bs + 55) div 56) \<and>
         length (tx_calls (snd (can_bus_send_large drv (Some bs) sid st)))
           = length (tx_calls st) + (length bs + 55) div 56 \<and>
         take (length (tx_calls st)) (tx_calls (snd (can_bus_send_large drv (Some bs) sid st)))
           = tx_calls st \<and>
         fst (sent_msg drv bs sid st i) = tx_header_64 sid \<and>
         DataLength (fst (sent_msg drv bs sid st i)) = can_bus_len_to_dlc 64 \<and>
         length (snd (sent_msg drv bs sid st i)) = 64 \<and>
         take 8 (snd (sent_msg drv bs sid st i)) =
           [0x44, 0x53, g_seq st, of_nat i, of_nat ((length bs + 55) div 56),
            (if i = 0 then 1 else 0) OR (if i = (length bs + 55) div 56 - 1 then 2 else 0),
            of_nat (length bs mod 256), of_nat (length bs div 256)] \<and>
         hdr_load (snd (sent_msg drv bs sid st i)) =
           \<lparr>hdr_magic = 0x5344, hdr_seq = g_seq st, hdr_frag_idx = of_nat i,
            hdr_frag_cnt = of_nat ((length bs + 55) div 56),
            hdr_flags = (if i = 0 then 1 else 0)
                          OR (if i = (length bs + 55) div 56 - 1 then 2 else 0),
            hdr_total_len = of_nat (length bs)\<rparr> \<and>
         unat (hdr_frag_idx (hdr_load (snd (sent_msg drv bs sid st i)))) = i \<and>
         unat (hdr_frag_cnt (hdr_load (snd (sent_msg drv bs sid st i))))
           = (length bs + 55) div 56 \<and>
         unat (hdr_total_len (hdr_load (snd (sent_msg drv bs sid st i)))) = length bs \<and>
         bit (hdr_flags (hdr_load (snd (sent_msg drv bs sid st i)))) 0 = (i = 0) \<and>
         bit (hdr_flags (hdr_load (snd (sent_msg drv bs sid st i)))) 1
           = (i = (length bs + 55) div 56 - 1) \<and>
         drop 8 (snd (sent_msg drv bs sid st i)) =
           take 56 (drop (56 * i) bs) @ replicate (56 - length (take 56 (drop (56 * i) bs))) 0"
proof -
  let ?cnt = "(length bs + 55) div 56"
  let ?R = "can_bus_send_large drv (Some bs) sid st"
  have R: "?R = (HAL_OK, snd ?R)" using assms(1) by (cases ?R) simp
  from send_large_calls[OF R]
  have ne: "bs \<noteq> []" and c: "?cnt \<le> 255"
    and calls: "tx_calls (snd ?R) = tx_calls st @
           map (\<lambda>i. (tx_header_64 sid, frag_wire (g_seq st) bs (of_nat ?cnt) (of_nat i))) [0..<?cnt]"
    by simp_all
  have len: "length bs < 65536" using c by simp
  have m: "sent_msg drv bs sid st i = (tx_header_64 sid, frag_wire (g_seq st) bs (of_nat ?cnt) (of_nat i))"
    using assms(2) by (simp add: sent_msg_def calls nth_append)
  note u = u8_idx[OF assms(2) c]
  have fl: "hdr_flags (frag_hdr (g_seq st) (length bs) (of_nat ?cnt) (of_nat i))
        = (if i = 0 then 1 else 0) OR (if i = ?cnt - 1 then 2 else 0)"
    by (simp add: frag_hdr_def u)
  have tl: "unat (of_nat (length bs) :: u16) = length bs" using len by (simp add: unat_of_nat)
  have p1: "56 * (?cnt - 1) < length bs \<and> length bs \<le> 56 * ?cnt"
    using ceil_div_56[of "length bs"] ne by simp
  have p2: "length (tx_calls (snd ?R)) = length (tx_calls st) + ?cnt \<and>
         take (length (tx_calls st)) (tx_calls (snd ?R)) = tx_calls st"
    by (simp add: calls)
  have p3: "fst (sent_msg drv bs sid st i) = tx_header_64 sid \<and>
         DataLength (fst (sent_msg drv bs sid st i)) = can_bus_len_to_dlc 64 \<and>
         length (snd (sent_msg drv bs sid st i)) = 64"
    by (simp add: m tx_header_64_def dlc_64)
  have p4: "take 8 (snd (sent_msg drv bs sid st i)) =
           [0x44, 0x53, g_seq st, of_nat i, of_nat ?cnt,
            (if i = 0 then 1 else 0) OR (if i = ?cnt - 1 then 2 else 0),
            of_nat (length bs mod 256), of_nat (length bs div 256)]"
    unfolding m snd_conv frag_wire_bytes[OF len] fl ..
  have p5: "hdr_load (snd (sent_msg drv bs sid st i)) =
           \<lparr>hdr_magic = 0x5344, hdr_seq = g_seq st, hdr_frag_idx = of_nat i,
            hdr_frag_cnt = of_nat ?cnt,
            hdr_flags = (if i = 0 then 1 else 0) OR (if i = ?cnt - 1 then 2 else 0),
            hdr_total_len = of_nat (length bs)\<rparr>"
    unfolding m snd_conv hdr_load_frag_wire by (simp add: frag_hdr_def u)
  have p6: "unat (hdr_frag_idx (hdr_load (snd (sent_msg drv bs sid st i)))) = i \<and>
         unat (hdr_frag_cnt (hdr_load (snd (sent_msg drv bs sid st i)))) = ?cnt \<and>
         unat (hdr_total_len (hdr_load (snd (sent_msg drv bs sid st i)))) = length bs"
    unfolding p5 by (simp add: u tl)
  have p7: "bit (hdr_flags (hdr_load (snd (sent_msg drv bs sid st i)))) 0 = (i = 0) \<and>
         bit (hdr_flags (hdr_load (snd (sent_msg drv bs sid st i)))) 1 = (i = ?cnt - 1)"
    unfolding m snd_conv hdr_load_frag_wire frag_flags by (simp add: u)
  have p8: "drop 8 (snd (sent_msg drv bs sid st i)) =
           take 56 (drop (56 * i) bs) @ replicate (56 - length (take 56 (drop (56 * i) bs))) 0"
    unfolding m snd_conv drop_frag_wire by (simp add: frag_chunk_def u)
  from p1 p2 p3 p4 p5 p6 p7 p8 show ?thesis by blast
qed

theorem send_large_fragments_witness:
  "fst (can_bus_send_large drv_ok (Some (replicate 150 7)) 3 tx_init) = HAL_OK \<and>
   (2 :: nat) < (length (replicate 150 (7 :: u8)) + 55) div 56 \<and>
   length (tx_calls (snd (can_bus_send_large drv_ok (Some (replicate 150 7)) 3 tx_init))) = 3 \<and>
   take 8 (snd (sent_msg drv_ok (replicate 150 7) 3 tx_init 2)) = [0x44, 0x53, 0, 2, 3, 2, 150, 0] \<and>
   drop 8 (snd (sent_msg drv_ok (replicate 150 7) 3 tx_init 2)) = replicate 38 7 @ replicate 18 0"
proof -
  have h1: "fst (can_bus_send_large drv_ok (Some (replicate 150 7)) 3 tx_init) = HAL_OK"
    by (rule send_large_status) (simp_all add: tx_init_def drv_ok_def)
  have h2: "(2 :: nat) < (length (replicate 150 (7 :: u8)) + 55) div 56" by simp
  from send_large_fragments [OF h1 h2] h1 h2
  show ?thesis by (simp add: tx_init_def)
qed

text \<open>
  C10: with the bus initialised and a buffer of more than 64 bytes,
  \<open>can_bus_send_bytes\<close> does not fail for the length: it hands one message to the
  driver, with the DLC code for 64 bytes and the first 64 bytes of the buffer, and
  returns the driver's status.
\<close>

theorem send_bytes_truncates:
  assumes "g_hfdcan st \<noteq> None" and "64 < length bs"
  shows "fst (can_bus_send_bytes drv (Some bs) sid st)
           = drv (tx_calls st @ [(tx_header_64 sid, take 64 bs)]) \<and>
         tx_calls (snd (can_bus_send_bytes drv (Some bs) sid st))
           = tx_calls st @ [(tx_header_64 sid, take 64 bs)] \<and>
         length (take 64 bs) = 64 \<and>
         DataLength (tx_header_64 sid) = can_bus_len_to_dlc 64 \<and>
         can_bus_dlc_to_len (DataLength (tx_header_64 sid)) = 64"
  using assms send_bytes_64 [of st bs drv sid]
  by (simp add: tx_header_64_def dlc_64 dlc_64_len)

theorem send_bytes_truncates_witness:
  "g_hfdcan tx_init \<noteq> None \<and> 64 < length (replicate 65 (7 :: u8)) \<and>
   fst (can_bus_send_bytes drv_ok (Some (replicate 65 7)) 3 tx_init) = HAL_OK \<and>
   tx_calls (snd (can_bus_send_bytes drv_ok (Some (replicate 65 7)) 3 tx_init))
     = [(tx_header_64 3, replicate 64 7)]"
proof -
  have h: "g_hfdcan tx_init \<noteq> None" "64 < length (replicate 65 (7 :: u8))"
    by (simp_all add: tx_init_def)
  from send_bytes_truncates [OF h, of drv_ok 3] h
  show ?thesis by (simp add: drv_ok_def tx_init_def)
qed

subsection \<open>Fragmenting and reassembling\<close>

lemma unat_ucast_u8_u32: "unat (ucast (x :: u8) :: u32) = unat x"
proof -
  have "unat x < 2 ^ 32" using unsigned_less[of x, where ?'a = nat] by simp
  then show ?thesis by (simp add: unsigned_ucast_eq take_bit_nat_eq_self)
qed

lemma unat_ucast_u16_u32: "unat (ucast (x :: u16) :: u32) = unat x"
proof -
  have "unat x < 2 ^ 32" using unsigned_less[of x, where ?'a = nat] by simp
  then show ?thesis by (simp add: unsigned_ucast_eq take_bit_nat_eq_self)
qed

lemma unat_ucast_u8_u16: "unat (ucast (x :: u8) :: u16) = unat x"
proof -
  have "unat x < 2 ^ 16" using unsigned_less[of x, where ?'a = nat] by simp
  then show ?thesis by (simp add: unsigned_ucast_eq take_bit_nat_eq_self)
qed

text \<open>Number facts for a message of 1 to 2048 bytes.\<close>

lemma frag_count_bounds:
  assumes "1 \<le> length (bs :: u8 list)" "length bs \<le> 2048"
  shows "1 \<le> (length bs + 55) div 56" "(length bs + 55) div 56 \<le> 37"
  using assms by simp_all

lemma frag_index_bounds:
  assumes "i < (n + 55) div 56"
  shows "56 * i < (n :: nat)"
  using assms by simp

lemma rx_frag_fields:
  "fr_std_id (rx_frag sid sq bs i) = sid AND 0x7FF"
  "fr_len (rx_frag sid sq bs i) = 64"
  "fr_data (rx_frag sid sq bs i) = frag_wire sq bs (of_nat ((length bs + 55) div 56)) (of_nat i)"
  by (simp_all add: rx_frag_def isr_rx_frame_def tx_header_64_def dlc_64_len Let_def
      word_bw_assocs)

lemma rx_frag_is_frag: "is_frag (rx_frag sid sq bs i)"
  by (simp add: is_frag_def rx_frag_fields hdr_load_frag_wire frag_hdr_def sizeof_hdr_def
      CAN_BUS_FRAG_MAGIC_def)

lemma rx_frag_hdr_ok:
  assumes "1 \<le> length bs" "length bs \<le> 2048" "i < (length bs + 55) div 56"
  shows "\<not> hdr_bad (hdr_load (fr_data (rx_frag sid sq bs i)))"
proof -
  let ?cnt = "(length bs + 55) div 56"
  have c: "1 \<le> ?cnt" "?cnt \<le> 37" using assms by simp_all
  then have c255: "?cnt \<le> 255" by simp
  note u = u8_idx[OF assms(3) c255]
  have tl: "unat (of_nat (length bs) :: u16) = length bs" using assms(2) by (simp add: unat_of_nat)
  have "(of_nat ?cnt :: u8) \<noteq> 0" using u(2) c by (metis not_one_le_zero unat_0)
  moreover have "\<not> (of_nat ?cnt :: u8) \<le> of_nat i" using u assms(3) by (simp add: word_le_nat_alt)
  moreover have "(of_nat (length bs) :: u16) \<noteq> 0" using tl assms(1) by (metis not_one_le_zero unat_0)
  ultimately show ?thesis
    using u(2) c tl assms(2)
    by (simp add: hdr_bad_def rx_frag_fields hdr_load_frag_wire frag_hdr_def
        CAN_BUS_REASM_MAX_FRAGS_def CAN_BUS_REASM_MAX_BYTES_def)
qed

lemma bit_test_single:
  assumes "i < 64" "length m = 1"
  shows "bit_test m (ucast (of_nat i :: u8)) = bit (m ! 0) i"
proof -
  have u: "unat (ucast (of_nat i :: u8) :: u16) = i"
    using assms(1) by (simp add: unat_ucast_u8_u16 unat_of_nat)
  have w: "unat ((ucast (of_nat i :: u8) :: u16) div 64) = 0"
    using assms(1) by (simp add: unat_div_distrib u)
  have b: "unat ((ucast (of_nat i :: u8) :: u16) mod 64) = i"
    using assms(1) by (simp add: unat_mod_distrib u)
  have "(drop_bit i (m ! 0) AND 1 \<noteq> 0) = bit (m ! 0) i"
    by (simp add: and_one_eq bit_iff_odd_drop_bit odd_iff_mod_2_eq_one)
  then show ?thesis by (simp add: bit_test_def Let_def w b)
qed

lemma bit_set_single:
  assumes "i < 64" "length m = 1"
  shows "bit_set m (ucast (of_nat i :: u8)) = [m ! 0 OR push_bit i 1]"
proof -
  have u: "unat (ucast (of_nat i :: u8) :: u16) = i"
    using assms(1) by (simp add: unat_ucast_u8_u16 unat_of_nat)
  have w: "unat ((ucast (of_nat i :: u8) :: u16) div 64) = 0"
    using assms(1) by (simp add: unat_div_distrib u)
  have b: "unat ((ucast (of_nat i :: u8) :: u16) mod 64) = i"
    using assms(1) by (simp add: unat_mod_distrib u)
  obtain x where "m = [x]" using assms(2) by (cases m) simp_all
  then show ?thesis by (simp add: bit_set_def Let_def w b)
qed

lemma bit_or_push_1:
  "k < 64 \<Longrightarrow> i < 64 \<Longrightarrow> bit ((x :: u64) OR push_bit i 1) k = (bit x k \<or> k = i)"
  by (auto simp: bit_simps)

lemma slot_numbers:
  assumes "1 \<le> length bs" "length bs \<le> 2048" "i < (length bs + 55) div 56"
    and "total_len s1 = of_nat (length bs)" "data_cap s1 = 56"
  shows "unat (slot_off (frag_hdr sq (length bs) fc (of_nat i)) s1) = 56 * i"
    and "\<not> ucast (total_len s1) \<le> slot_off (frag_hdr sq (length bs) fc (of_nat i)) s1"
    and "unat (slot_take (frag_hdr sq (length bs) fc (of_nat i)) 56 s1) = min 56 (length bs - 56 * i)"
proof -
  let ?h = "frag_hdr sq (length bs) fc (of_nat i)"
  have i37: "i < 37" using assms(2,3) by simp
  have lt: "56 * i < length bs" using assms(3) by simp
  have ui: "unat (ucast (of_nat i :: u8) :: u32) = i"
    using i37 by (simp add: unat_ucast_u8_u32 unat_of_nat)
  have uc: "unat (ucast (56 :: u8) :: u32) = 56" by (simp add: unat_ucast_u8_u32)
  have "unat (ucast (of_nat i :: u8) :: u32) * unat (ucast (56 :: u8) :: u32) < 2 ^ LENGTH(32)"
    unfolding ui uc using i37 by simp
  then have "unat ((ucast (of_nat i :: u8) :: u32) * ucast (56 :: u8))
      = unat (ucast (of_nat i :: u8) :: u32) * unat (ucast (56 :: u8) :: u32)"
    by (rule unat_mult_lem[THEN iffD1])
  then have "unat ((ucast (of_nat i :: u8) :: u32) * ucast (56 :: u8)) = i * 56"
    unfolding ui uc .
  then show off: "unat (slot_off ?h s1) = 56 * i"
    by (simp add: slot_off_def frag_hdr_def assms(5) mult.commute)
  have tl: "unat (ucast (total_len s1) :: u32) = length bs"
    using assms(2) by (simp add: assms(4) unat_ucast_u16_u32 unat_of_nat)
  show nle: "\<not> ucast (total_len s1) \<le> slot_off ?h s1"
    using lt by (simp add: word_le_nat_alt off tl)
  have p: "unat (ucast (56 :: u8) :: u32) = 56" by (simp add: unat_ucast_u8_u32)
  have "unat (slot_off ?h s1) + unat (ucast (56 :: u8) :: u32) < 2 ^ LENGTH(32)"
    unfolding off p using i37 by simp
  then have "unat (slot_off ?h s1 + ucast (56 :: u8))
      = unat (slot_off ?h s1) + unat (ucast (56 :: u8) :: u32)"
    by (rule unat_add_lem[THEN iffD1])
  then have "unat (slot_off ?h s1 + ucast (56 :: u8)) = 56 * i + 56"
    unfolding off p .
  then have sum: "unat (slot_off ?h s1 + 56) = 56 * i + 56" by simp
  have le: "slot_off ?h s1 \<le> ucast (total_len s1)"
    using lt by (simp add: word_le_nat_alt off tl)
  have diff: "unat (ucast (total_len s1) - slot_off ?h s1) = length bs - 56 * i"
    using unat_sub[OF le] by (simp add: off tl)
  show "unat (slot_take ?h 56 s1) = min 56 (length bs - 56 * i)"
    unfolding slot_take_def
    by (auto simp: word_less_nat_alt sum tl diff p min_def)
qed

lemma nth_app3:
  "length xs = a \<Longrightarrow> length ys = t \<Longrightarrow>
   (xs @ ys @ zs) ! k =
     (if k < a then xs ! k else if k < a + t then ys ! (k - a) else zs ! (k - a - t))"
  by (auto simp: nth_append)

lemma chunk_copy_nth:
  assumes "length b = 2048" "56 * i < length bs" "length bs \<le> 2048" "k < 2048"
  shows "(take (56 * i) b @ frag_chunk bs i @ drop (56 * i + min 56 (length bs - 56 * i)) b) ! k
           = (if 56 * i \<le> k \<and> k < 56 * i + min 56 (length bs - 56 * i) then bs ! k else b ! k)"
proof -
  define t where "t = min 56 (length bs - 56 * i)"
  have lc: "length (frag_chunk bs i) = t" by (simp add: length_frag_chunk t_def)
  have lt: "length (take (56 * i) b) = 56 * i" using assms by simp
  have t56: "t \<le> 56" and tl: "56 * i + t \<le> length bs" using assms(2) by (simp_all add: t_def)
  have x1: "k < 56 * i \<Longrightarrow> take (56 * i) b ! k = b ! k" by simp
  have x2: "\<not> k < 56 * i \<Longrightarrow> k < 56 * i + t \<Longrightarrow> frag_chunk bs i ! (k - 56 * i) = bs ! k"
  proof -
    assume ge: "\<not> k < 56 * i" and "k < 56 * i + t"
    then have "k - 56 * i < 56" "k - 56 * i < length bs - 56 * i" using t56 tl by linarith+
    moreover have "drop (56 * i) bs ! (k - 56 * i) = bs ! (56 * i + (k - 56 * i))"
      using assms(2) by (intro nth_drop) simp
    ultimately show ?thesis using ge by (simp add: frag_chunk_def)
  qed
  have x3: "\<not> k < 56 * i + t \<Longrightarrow> drop (56 * i + t) b ! (k - 56 * i - t) = b ! k"
  proof -
    assume ge: "\<not> k < 56 * i + t"
    have "56 * i + t \<le> length b" using tl assms by simp
    then have "drop (56 * i + t) b ! (k - 56 * i - t) = b ! (56 * i + t + (k - 56 * i - t))"
      by (rule nth_drop)
    then show ?thesis using ge by simp
  qed
  have "(take (56 * i) b @ frag_chunk bs i @ drop (56 * i + t) b) ! k
           = (if 56 * i \<le> k \<and> k < 56 * i + t then bs ! k else b ! k)"
    unfolding nth_app3[OF lt lc] using x1 x2 x3 by auto
  then show ?thesis by (simp only: t_def)
qed

lemma chunk_copy_length:
  assumes "length b = 2048" "56 * i < length bs" "length bs \<le> 2048"
  shows "length (take (56 * i) b @ frag_chunk bs i @ drop (56 * i + min 56 (length bs - 56 * i)) b)
           = 2048"
  using assms by (simp add: length_frag_chunk)

lemma chunk_payload:
  "take (min 56 (length bs - 56 * i))
     (frag_chunk bs i @ replicate (56 - length (frag_chunk bs i)) 0) = frag_chunk bs i"
  by (simp add: length_frag_chunk)

lemma msg_slotI:
  assumes "active s \<noteq> 0" "std_id s = sid" "seq s = sq"
    "frag_cnt s = of_nat ((length bs + 55) div 56)" "total_len s = of_nat (length bs)"
    "data_cap s = 56" "unat (got_count s) = card S" "length (got_mask s) = 1"
    "\<And>k. k < 64 \<Longrightarrow> bit (got_mask s ! 0) k = (k \<in> S)" "length (buf s) = 2048"
    "\<And>j k. j \<in> S \<Longrightarrow> 56 * j \<le> k \<Longrightarrow> k < 56 * (j + 1) \<Longrightarrow> k < length bs
       \<Longrightarrow> buf s ! k = bs ! k"
  shows "msg_slot sid sq bs S s"
  using assms unfolding msg_slot_def by blast

lemma slot_mark_msg:
  assumes len: "1 \<le> length bs" "length bs \<le> 2048"
    and i: "i < (length bs + 55) div 56" "i \<notin> S"
    and S: "S \<subseteq> {..<(length bs + 55) div 56}"
    and m: "msg_slot sid sq bs S s1"
  shows "msg_slot sid sq bs (insert i S)
           (slot_mark (frag_hdr sq (length bs) fc (of_nat i))
              (frag_chunk bs i @ replicate (56 - length (frag_chunk bs i)) 0) 56 s1)"
proof -
  let ?h = "frag_hdr sq (length bs) fc (of_nat i)"
  let ?p = "frag_chunk bs i @ replicate (56 - length (frag_chunk bs i)) 0"
  let ?t = "min 56 (length bs - 56 * i)"
  define b' where "b' = take (56 * i) (buf s1) @ frag_chunk bs i @ drop (56 * i + ?t) (buf s1)"
  have f: "active s1 \<noteq> 0" "std_id s1 = sid" "seq s1 = sq"
    "frag_cnt s1 = of_nat ((length bs + 55) div 56)" "total_len s1 = of_nat (length bs)"
    "data_cap s1 = 56" "unat (got_count s1) = card S" "length (got_mask s1) = 1"
    "length (buf s1) = 2048"
    and bits: "\<And>k. k < 64 \<Longrightarrow> bit (got_mask s1 ! 0) k = (k \<in> S)"
    and bytes: "\<And>j k. j \<in> S \<Longrightarrow> 56 * j \<le> k \<Longrightarrow> k < 56 * (j + 1) \<Longrightarrow> k < length bs
                 \<Longrightarrow> buf s1 ! k = bs ! k"
    using m by (simp_all add: msg_slot_def)
  have i64: "i < 64" using i(1) len(2) by simp
  have lt: "56 * i < length bs" using i(1) by simp
  have fin: "finite S" using S finite_subset by blast
  have "card S \<le> card {..<(length bs + 55) div 56}" by (rule card_mono[OF _ S]) simp
  then have cs: "card S \<le> 37" using len(2) by simp
  note n = slot_numbers[OF len i(1) f(5) f(6), of sq fc]
  have idx: "hdr_frag_idx ?h = of_nat i" by (simp add: frag_hdr_def)
  have nt: "\<not> bit_test (got_mask s1) (ucast (hdr_frag_idx ?h))"
    using bit_test_single[OF i64 f(8)] bits[OF i64] i(2) by (simp add: idx)
  have st: "bit_set (got_mask s1) (ucast (hdr_frag_idx ?h)) = [got_mask s1 ! 0 OR push_bit i 1]"
    using bit_set_single[OF i64 f(8)] by (simp add: idx)
  have mc: "memcpy_at (buf s1) (unat (slot_off ?h s1)) ?p (unat (slot_take ?h 56 s1)) = b'"
    by (simp only: n(1) n(3) memcpy_at_def chunk_payload b'_def)
  have mk: "slot_mark ?h ?p 56 s1 =
      s1\<lparr>got_mask := [got_mask s1 ! 0 OR push_bit i 1], got_count := got_count s1 + 1,
           buf := b'\<rparr>"
    unfolding slot_mark_def using nt by (simp only: st mc simp_thms if_True)
  have gc: "unat (got_count s1 + 1) = card (insert i S)"
  proof -
    have "unat (got_count s1) + unat (1 :: u16) < 2 ^ LENGTH(16)" using f(7) cs by simp
    then have "unat (got_count s1 + 1) = unat (got_count s1) + unat (1 :: u16)"
      by (rule unat_add_lem[THEN iffD1])
    then show ?thesis using f(7) fin i(2) by simp
  qed
  have nb: "\<And>k. k < 64 \<Longrightarrow> bit (got_mask s1 ! 0 OR push_bit i 1) k = (k \<in> insert i S)"
  proof -
    fix k :: nat assume k: "k < 64"
    show "bit (got_mask s1 ! 0 OR push_bit i 1) k = (k \<in> insert i S)"
      unfolding bit_or_push_1[OF k i64] bits[OF k] by auto
  qed
  have lb: "length b' = 2048" unfolding b'_def by (rule chunk_copy_length[OF f(9) lt len(2)])
  have by': "\<And>j k. j \<in> insert i S \<Longrightarrow> 56 * j \<le> k \<Longrightarrow> k < 56 * (j + 1) \<Longrightarrow> k < length bs
                 \<Longrightarrow> b' ! k = bs ! k"
  proof -
    fix j k assume j: "j \<in> insert i S" and k: "56 * j \<le> k" "k < 56 * (j + 1)" "k < length bs"
    have k2: "k < 2048" using k(3) len(2) by simp
    show "b' ! k = bs ! k"
      unfolding b'_def
    proof (cases "j = i")
      case True
      then have "56 * i \<le> k \<and> k < 56 * i + ?t" using k by simp
      then show "(take (56 * i) (buf s1) @ frag_chunk bs i @ drop (56 * i + ?t) (buf s1)) ! k
                   = bs ! k"
        by (simp add: chunk_copy_nth[OF f(9) lt len(2) k2])
    next
      case False
      then have js: "j \<in> S" using j by simp
      have "j < i \<or> i < j" using False by auto
      then have "\<not> (56 * i \<le> k \<and> k < 56 * i + ?t)" using k by auto
      then show "(take (56 * i) (buf s1) @ frag_chunk bs i @ drop (56 * i + ?t) (buf s1)) ! k
                   = bs ! k"
        using bytes[OF js k] by (simp add: chunk_copy_nth[OF f(9) lt len(2) k2])
    qed
  qed
  show ?thesis
    unfolding mk
  proof (rule msg_slotI)
    fix k :: nat assume "k < 64"
    then show "bit (got_mask (s1\<lparr>got_mask := [got_mask s1 ! 0 OR push_bit i 1],
           got_count := got_count s1 + 1, buf := b'\<rparr>) ! 0) k = (k \<in> insert i S)"
      using nb[of k] by simp
  next
    fix j k assume "j \<in> insert i S" "56 * j \<le> k" "k < 56 * (j + 1)" "k < length bs"
    then show "buf (s1\<lparr>got_mask := [got_mask s1 ! 0 OR push_bit i 1],
           got_count := got_count s1 + 1, buf := b'\<rparr>) ! k = bs ! k"
      using by'[of j k] by simp
  qed (simp_all add: f gc lb)
qed

lemma msg_slot_tick: "msg_slot sid sq bs S s \<Longrightarrow> msg_slot sid sq bs S (s\<lparr>last_tick_ms := t\<rparr>)"
  by (simp add: msg_slot_def)

lemma msg_slot_claimed:
  assumes "1 \<le> length bs" "length bs \<le> 2048" "length (buf s0) = 2048"
  shows "msg_slot sid sq bs {}
           (slot_params (frag_hdr sq (length bs) (of_nat ((length bs + 55) div 56)) idx) 56
              (reasm_claim s0 sid sq now))"
    and "frag_cnt (reasm_claim s0 sid sq now) = 0"
  using assms
  by (simp_all add: msg_slot_def slot_params_def reasm_claim_def reasm_reset_def frag_hdr_def
      GOT_MASK_WORDS_def CAN_BUS_REASM_MAX_FRAGS_def)

lemma msg_slot_params:
  assumes "1 \<le> length bs" "length bs \<le> 2048" "msg_slot sid sq bs S s"
  shows "slot_params (frag_hdr sq (length bs) (of_nat ((length bs + 55) div 56)) idx) 56 s = s"
    and "frag_cnt s = hdr_frag_cnt (frag_hdr sq (length bs) (of_nat ((length bs + 55) div 56)) idx)"
    and "total_len s = hdr_total_len (frag_hdr sq (length bs) (of_nat ((length bs + 55) div 56)) idx)"
proof -
  let ?cnt = "(length bs + 55) div 56"
  have c: "1 \<le> ?cnt" "?cnt \<le> 255" using assms(1,2) by simp_all
  have "unat (of_nat ?cnt :: u8) = ?cnt" using c by (simp add: unat_of_nat)
  then have "(of_nat ?cnt :: u8) \<noteq> 0" using c(1) by (metis not_one_le_zero unat_0)
  then have nz: "frag_cnt s \<noteq> 0" using assms(3) by (simp add: msg_slot_def)
  show "slot_params (frag_hdr sq (length bs) (of_nat ?cnt) idx) 56 s = s"
    using nz by (simp add: slot_params_def)
  show "frag_cnt s = hdr_frag_cnt (frag_hdr sq (length bs) (of_nat ?cnt) idx)"
    and "total_len s = hdr_total_len (frag_hdr sq (length bs) (of_nat ?cnt) idx)"
    using assms(3) by (simp_all add: msg_slot_def frag_hdr_def)
qed

lemma msg_slot_complete:
  assumes "length bs \<le> 2048" "msg_slot sid sq bs {..<(length bs + 55) div 56} s"
  shows "take (length bs) (buf s) = bs"
proof (rule nth_equalityI)
  show "length (take (length bs) (buf s)) = length bs"
    using assms by (simp add: msg_slot_def)
next
  fix k assume "k < length (take (length bs) (buf s))"
  then have k: "k < length bs" by simp
  have "k div 56 < (length bs + 55) div 56" using k by simp
  moreover have "56 * (k div 56) \<le> k" "k < 56 * (k div 56 + 1)" by simp_all
  ultimately have "buf s ! k = bs ! k"
    using assms(2) k unfolding msg_slot_def by blast
  then show "take (length bs) (buf s) ! k = bs ! k" using k by simp
qed

lemma slot_accept_msg:
  assumes len: "1 \<le> length bs" "length bs \<le> 2048"
    and i: "i < (length bs + 55) div 56" "i \<notin> S"
    and S: "S \<subseteq> {..<(length bs + 55) div 56}"
    and m: "msg_slot sid sq bs S
              (slot_params (frag_hdr sq (length bs) (of_nat ((length bs + 55) div 56)) (of_nat i)) 56 s)"
    and nm: "frag_cnt s = 0 \<or>
             (frag_cnt s = hdr_frag_cnt (frag_hdr sq (length bs) (of_nat ((length bs + 55) div 56)) (of_nat i)) \<and>
              total_len s = hdr_total_len (frag_hdr sq (length bs) (of_nat ((length bs + 55) div 56)) (of_nat i)))"
  shows "\<exists>s2. msg_slot sid sq bs (insert i S) s2 \<and>
           slot_accept (frag_hdr sq (length bs) (of_nat ((length bs + 55) div 56)) (of_nat i))
             (frag_chunk bs i @ replicate (56 - length (frag_chunk bs i)) 0) 56 now s =
           (if card (insert i S) = (length bs + 55) div 56
            then (Msg_Completed, reasm_reset s2, Some (buf s2, length bs))
            else (Frag_Stored, s2, None))"
proof -
  let ?cnt = "(length bs + 55) div 56"
  let ?h = "frag_hdr sq (length bs) (of_nat ?cnt) (of_nat i)"
  let ?p = "frag_chunk bs i @ replicate (56 - length (frag_chunk bs i)) 0"
  let ?s1 = "slot_params ?h 56 s"
  let ?s2 = "slot_mark ?h ?p 56 ?s1"
  have m2: "msg_slot sid sq bs (insert i S) ?s2"
    by (rule slot_mark_msg[OF len i S m])
  have m3: "msg_slot sid sq bs (insert i S) (?s2\<lparr>last_tick_ms := now\<rparr>)"
    by (rule msg_slot_tick[OF m2])
  have f1: "total_len ?s1 = of_nat (length bs)" "data_cap ?s1 = 56"
    "frag_cnt ?s1 = of_nat ?cnt"
    using m by (simp_all add: msg_slot_def)
  have no: "\<not> ucast (total_len ?s1) \<le> slot_off ?h ?s1"
    by (rule slot_numbers(2)[OF len i(1) f1(1,2)])
  have c: "?cnt \<le> 255" using len(2) by simp
  have uc: "unat (frag_cnt ?s1) = ?cnt" using c by (simp add: f1(3) unat_of_nat)
  have ul: "unat (total_len ?s1) = length bs" using len(2) by (simp add: f1(1) unat_of_nat)
  have gc: "unat (got_count ?s2) = card (insert i S)" using m2 by (simp add: msg_slot_def)
  have "slot_accept ?h ?p 56 now s =
           (if card (insert i S) = ?cnt
            then (Msg_Completed, reasm_reset (?s2\<lparr>last_tick_ms := now\<rparr>),
                  Some (buf (?s2\<lparr>last_tick_ms := now\<rparr>), length bs))
            else (Frag_Stored, ?s2\<lparr>last_tick_ms := now\<rparr>, None))"
    using nm no by (auto simp: slot_accept_steps gc uc ul)
  with m3 show ?thesis by blast
qed

lemma sid_idle_update: "sid_idle sid g \<Longrightarrow> active y = 0 \<Longrightarrow> sid_idle sid (g[j := y])"
  unfolding sid_idle_def list_all_iff
  using set_update_subset_insert[of g j y] by auto

lemma sid_idle_overwrite: "sid_idle sid (g[j := x]) \<Longrightarrow> active y = 0 \<Longrightarrow> sid_idle sid (g[j := y])"
  using sid_idle_update[of sid "g[j := x]" y j] by simp

lemma sid_idle_nth:
  "sid_idle sid g \<Longrightarrow> k < length g \<Longrightarrow> \<not> (active (g ! k) \<noteq> 0 \<and> std_id (g ! k) = sid)"
  by (auto simp: sid_idle_def list_all_length)

lemma reasm_wf_update: "reasm_wf g \<Longrightarrow> length (buf y) = 2048 \<Longrightarrow> reasm_wf (g[j := y])"
  unfolding reasm_wf_def list_all_iff
  using set_update_subset_insert[of g j y] by auto

lemma reasm_wf_nth: "reasm_wf g \<Longrightarrow> k < CAN_BUS_REASM_SLOTS \<Longrightarrow> length (buf (g ! k)) = 2048"
  by (simp add: reasm_wf_def list_all_length)

lemma reasm_wf_length: "reasm_wf g \<Longrightarrow> length g = CAN_BUS_REASM_SLOTS"
  by (simp add: reasm_wf_def)

lemma get_slot_idle:
  assumes "reasm_wf g" "sid_idle sid g"
  shows "\<exists>j<CAN_BUS_REASM_SLOTS. reasm_get_slot sid sq now g = (j, g[j := reasm_claim (g ! j) sid sq now])"
proof -
  let ?P = "\<lambda>i. active (g ! i) \<noteq> 0 \<and> std_id (g ! i) = sid"
  let ?Q = "\<lambda>i. active (g ! i) = 0"
  have "\<And>k. k < CAN_BUS_REASM_SLOTS \<Longrightarrow> \<not> ?P k"
    using sid_idle_nth[OF assms(2)] reasm_wf_length[OF assms(1)] by simp
  then have n: "find ?P [0..<CAN_BUS_REASM_SLOTS] = None"
    by (simp add: find_None_iff)
  show ?thesis
  proof (cases "find ?Q [0..<CAN_BUS_REASM_SLOTS]")
    case (Some j)
    then have "j < CAN_BUS_REASM_SLOTS" using find_upt_Some[of ?Q] by blast
    then show ?thesis using Some n by (simp add: reasm_get_slot_def)
  next
    case None
    then show ?thesis using n reasm_stalest_lt[of now g]
      by (simp add: reasm_get_slot_def Let_def)
  qed
qed

lemma get_slot_collecting:
  assumes "reasm_wf g" "collecting sid sq bs S j g"
  shows "reasm_get_slot sid sq now g = (j, g[j := (g ! j)\<lparr>last_tick_ms := now\<rparr>])"
proof -
  let ?P = "\<lambda>i. active (g ! i) \<noteq> 0 \<and> std_id (g ! i) = sid"
  have j: "j < CAN_BUS_REASM_SLOTS" and m: "msg_slot sid sq bs S (g ! j)"
    and idl: "sid_idle sid (g[j := reasm_reset (g ! j)])"
    using assms(2) by (simp_all add: collecting_def)
  have l: "length g = CAN_BUS_REASM_SLOTS" by (rule reasm_wf_length[OF assms(1)])
  have pj: "?P j" and sq: "seq (g ! j) = sq" using m by (simp_all add: msg_slot_def)
  have "\<forall>k<j. \<not> ?P k"
  proof (intro allI impI)
    fix k assume k: "k < j"
    then have "k < length (g[j := reasm_reset (g ! j)])" using j l by simp
    from sid_idle_nth[OF idl this] k show "\<not> ?P k" by simp
  qed
  then have "find ?P [0..<CAN_BUS_REASM_SLOTS] = Some j"
    using find_upt_first[of j CAN_BUS_REASM_SLOTS ?P] j pj by blast
  then show ?thesis using sq by (simp add: reasm_get_slot_def)
qed

lemma get_slot_ready:
  assumes len: "1 \<le> length bs" "length bs \<le> 2048"
    and wf: "reasm_wf g"
    and stt: "(S = {} \<and> sid_idle sid g) \<or> (\<exists>j. collecting sid sq bs S j g)"
  shows "\<exists>j g1. reasm_get_slot sid sq now g = (j, g1) \<and> j < CAN_BUS_REASM_SLOTS \<and> reasm_wf g1 \<and>
           msg_slot sid sq bs S
             (slot_params (frag_hdr sq (length bs) (of_nat ((length bs + 55) div 56)) idx) 56 (g1 ! j)) \<and>
           (frag_cnt (g1 ! j) = 0 \<or>
             (frag_cnt (g1 ! j)
                = hdr_frag_cnt (frag_hdr sq (length bs) (of_nat ((length bs + 55) div 56)) idx) \<and>
              total_len (g1 ! j)
                = hdr_total_len (frag_hdr sq (length bs) (of_nat ((length bs + 55) div 56)) idx))) \<and>
           sid_idle sid (g1[j := reasm_reset (g1 ! j)])"
  using stt
proof
  assume a: "S = {} \<and> sid_idle sid g"
  then obtain j where j: "j < CAN_BUS_REASM_SLOTS"
    and ig: "reasm_get_slot sid sq now g = (j, g[j := reasm_claim (g ! j) sid sq now])"
    using get_slot_idle[OF wf, of sid sq now] by blast
  let ?g1 = "g[j := reasm_claim (g ! j) sid sq now]"
  have l: "length g = CAN_BUS_REASM_SLOTS" by (rule reasm_wf_length[OF wf])
  have n: "?g1 ! j = reasm_claim (g ! j) sid sq now" using j l by simp
  have b: "length (buf (g ! j)) = 2048" by (rule reasm_wf_nth[OF wf j])
  have "reasm_wf ?g1"
    using b by (intro reasm_wf_update[OF wf]) (simp add: reasm_claim_def reasm_reset_def)
  moreover have "msg_slot sid sq bs S
          (slot_params (frag_hdr sq (length bs) (of_nat ((length bs + 55) div 56)) idx) 56 (?g1 ! j))"
    unfolding n using msg_slot_claimed(1)[OF len b] a by simp
  moreover have "frag_cnt (?g1 ! j) = 0"
    unfolding n by (rule msg_slot_claimed(2)[OF len b])
  moreover have "sid_idle sid (?g1[j := reasm_reset (?g1 ! j)])"
    using sid_idle_update[of sid g "reasm_reset (?g1 ! j)" j] a by simp
  ultimately show ?thesis using ig j by blast
next
  assume "\<exists>j. collecting sid sq bs S j g"
  then obtain j where c: "collecting sid sq bs S j g" by blast
  let ?g1 = "g[j := (g ! j)\<lparr>last_tick_ms := now\<rparr>]"
  have ig: "reasm_get_slot sid sq now g = (j, ?g1)" by (rule get_slot_collecting[OF wf c])
  have j: "j < CAN_BUS_REASM_SLOTS" and m: "msg_slot sid sq bs S (g ! j)"
    and idl: "sid_idle sid (g[j := reasm_reset (g ! j)])"
    using c by (simp_all add: collecting_def)
  have l: "length g = CAN_BUS_REASM_SLOTS" by (rule reasm_wf_length[OF wf])
  have n: "?g1 ! j = (g ! j)\<lparr>last_tick_ms := now\<rparr>" using j l by simp
  have m1: "msg_slot sid sq bs S (?g1 ! j)" unfolding n by (rule msg_slot_tick[OF m])
  have "reasm_wf ?g1"
    using reasm_wf_nth[OF wf j] by (intro reasm_wf_update[OF wf]) simp
  moreover have "msg_slot sid sq bs S
          (slot_params (frag_hdr sq (length bs) (of_nat ((length bs + 55) div 56)) idx) 56 (?g1 ! j))"
    unfolding msg_slot_params(1)[OF len m1] by (rule m1)
  moreover have "frag_cnt (?g1 ! j)
                = hdr_frag_cnt (frag_hdr sq (length bs) (of_nat ((length bs + 55) div 56)) idx) \<and>
              total_len (?g1 ! j)
                = hdr_total_len (frag_hdr sq (length bs) (of_nat ((length bs + 55) div 56)) idx)"
    using msg_slot_params(2,3)[OF len m1] by simp
  moreover have "sid_idle sid (?g1[j := reasm_reset (?g1 ! j)])"
    using sid_idle_overwrite[OF idl, of "reasm_reset (?g1 ! j)"] by simp
  ultimately show ?thesis using ig j by blast
qed

lemma full_set_card:
  assumes "A \<subseteq> {..<(n::nat)}"
  shows "(card A = n) = (A = {..<n})"
proof
  assume "card A = n"
  then have "card A = card {..<n}" by simp
  then show "A = {..<n}" using card_subset_eq[OF _ assms] by simp
next
  assume "A = {..<n}" then show "card A = n" by simp
qed

lemma rt_step:
  assumes len: "1 \<le> length bs" "length bs \<le> 2048"
    and i: "i < (length bs + 55) div 56" "i \<notin> S"
    and S: "S \<subseteq> {..<(length bs + 55) div 56}"
    and wf: "reasm_wf (g_reasm st)"
    and stt: "(S = {} \<and> sid_idle (sid AND 0x7FF) (g_reasm st)) \<or>
              (\<exists>j. collecting (sid AND 0x7FF) sq bs S j (g_reasm st))"
  shows "g_subs (snd (handle_rx_frame (rx_frag sid sq bs i) now st)) = g_subs st \<and>
         reasm_wf (g_reasm (snd (handle_rx_frame (rx_frag sid sq bs i) now st))) \<and>
         (if insert i S = {..<(length bs + 55) div 56}
          then rx_calls (snd (handle_rx_frame (rx_frag sid sq bs i) now st))
                 = rx_calls st @ fanout (g_subs st) bs \<and>
               sid_idle (sid AND 0x7FF) (g_reasm (snd (handle_rx_frame (rx_frag sid sq bs i) now st)))
          else rx_calls (snd (handle_rx_frame (rx_frag sid sq bs i) now st)) = rx_calls st \<and>
               (\<exists>j. collecting (sid AND 0x7FF) sq bs (insert i S) j
                      (g_reasm (snd (handle_rx_frame (rx_frag sid sq bs i) now st)))))"
proof -
  let ?cnt = "(length bs + 55) div 56"
  let ?sid = "sid AND 0x7FF"
  let ?f = "rx_frag sid sq bs i"
  let ?h = "frag_hdr sq (length bs) (of_nat ?cnt) (of_nat i)"
  let ?p = "frag_chunk bs i @ replicate (56 - length (frag_chunk bs i)) 0"
  have c255: "?cnt \<le> 255" using len(2) by simp
  have ui: "unat (of_nat i :: u8) = i" by (rule u8_idx(1)[OF i(1) c255])
  have fr: "is_frag ?f" by (rule rx_frag_is_frag)
  have hl: "hdr_load (fr_data ?f) = ?h" by (simp add: rx_frag_fields hdr_load_frag_wire)
  have hb: "\<not> hdr_bad ?h" using rx_frag_hdr_ok[OF len i(1), of sid sq] by (simp add: hl)
  have pl: "drop sizeof_hdr (fr_data ?f) = ?p"
    by (simp add: rx_frag_fields sizeof_hdr_def drop_frag_wire ui)
  have ln: "fr_len ?f - 8 = 56" by (simp add: rx_frag_fields)
  have hs: "hdr_seq ?h = sq" by (simp add: frag_hdr_def)
  obtain j g1 where ig: "reasm_get_slot ?sid sq now (g_reasm st) = (j, g1)"
    and j: "j < CAN_BUS_REASM_SLOTS" and wf1: "reasm_wf g1"
    and m: "msg_slot ?sid sq bs S (slot_params ?h 56 (g1 ! j))"
    and nm: "frag_cnt (g1 ! j) = 0 \<or>
             (frag_cnt (g1 ! j) = hdr_frag_cnt ?h \<and> total_len (g1 ! j) = hdr_total_len ?h)"
    and idl: "sid_idle ?sid (g1[j := reasm_reset (g1 ! j)])"
    using get_slot_ready[OF len wf stt, of now "of_nat i"] by blast
  obtain s2 where m2: "msg_slot ?sid sq bs (insert i S) s2"
    and acc: "slot_accept ?h ?p 56 now (g1 ! j) =
           (if card (insert i S) = ?cnt
            then (Msg_Completed, reasm_reset s2, Some (buf s2, length bs))
            else (Frag_Stored, s2, None))"
    using slot_accept_msg[OF len i S m nm, of now] by blast
  have sub: "insert i S \<subseteq> {..<?cnt}" using i(1) S by simp
  have full: "(card (insert i S) = ?cnt) = (insert i S = {..<?cnt})"
    by (rule full_set_card[OF sub])
  have l1: "length g1 = CAN_BUS_REASM_SLOTS" by (rule reasm_wf_length[OF wf1])
  have b2: "length (buf s2) = 2048" using m2 by (simp add: msg_slot_def)
  have run: "snd (handle_rx_frame ?f now st) =
      (if insert i S = {..<?cnt}
       then (can_bus_notify_rx (buf s2) (length bs) st)\<lparr>g_reasm := g1[j := reasm_reset s2]\<rparr>
       else st\<lparr>g_reasm := g1[j := s2]\<rparr>)"
    using fr hb
    by (simp add: handle_rx_frame_parts hl pl ln hs rx_frag_fields(1) ig acc full Let_def)
  show ?thesis
  proof (cases "insert i S = {..<?cnt}")
    case True
    have tk: "take (length bs) (buf s2) = bs"
      using msg_slot_complete[OF len(2)] m2 True by simp
    have "reasm_wf (g1[j := reasm_reset s2])"
      using b2 by (intro reasm_wf_update[OF wf1]) (simp add: reasm_reset_def)
    moreover have "sid_idle ?sid (g1[j := reasm_reset s2])"
      by (rule sid_idle_overwrite[OF idl]) simp
    ultimately show ?thesis
      using True by (simp add: run notify_fanout tk)
  next
    case False
    have "reasm_wf (g1[j := s2])" by (rule reasm_wf_update[OF wf1 b2])
    moreover have "collecting ?sid sq bs (insert i S) j (g1[j := s2])"
      using j l1 m2 sid_idle_overwrite[OF idl, of "reasm_reset s2"]
      by (simp add: collecting_def)
    ultimately show ?thesis
      using False by (auto simp: run)
  qed
qed

lemma rx_feed_Cons:
  "rx_feed (ft # fts) st = rx_feed fts (snd (handle_rx_frame (fst ft) (snd ft) st))"
  by (simp add: rx_feed_def)

lemma rt_feed:
  assumes len: "1 \<le> length bs" "length bs \<le> 2048"
  shows "distinct js \<Longrightarrow> set js \<subseteq> {..<(length bs + 55) div 56} \<Longrightarrow> set js \<inter> S = {} \<Longrightarrow>
     S \<subseteq> {..<(length bs + 55) div 56} \<Longrightarrow> length ts = length js \<Longrightarrow> reasm_wf (g_reasm st) \<Longrightarrow>
     (S = {} \<and> sid_idle (sid AND 0x7FF) (g_reasm st)) \<or>
       (\<exists>j. collecting (sid AND 0x7FF) sq bs S j (g_reasm st)) \<Longrightarrow>
     js \<noteq> [] \<Longrightarrow> S \<union> set js = {..<(length bs + 55) div 56} \<Longrightarrow>
     rx_calls (rx_feed (zip (map (rx_frag sid sq bs) js) ts) st) = rx_calls st @ fanout (g_subs st) bs"
proof (induction js arbitrary: S ts st)
  case Nil
  then show ?case by simp
next
  case (Cons i js)
  let ?cnt = "(length bs + 55) div 56"
  obtain t ts' where ts: "ts = t # ts'" using Cons.prems(5) by (cases ts) simp_all
  let ?st1 = "snd (handle_rx_frame (rx_frag sid sq bs i) t st)"
  have i: "i < ?cnt" "i \<notin> S" using Cons.prems(2,3) by auto
  note step = rt_step[OF len i Cons.prems(4) Cons.prems(6) Cons.prems(7), of t]
  have feed: "rx_feed (zip (map (rx_frag sid sq bs) (i # js)) ts) st
                = rx_feed (zip (map (rx_frag sid sq bs) js) ts') ?st1"
    by (simp add: ts rx_feed_Cons)
  show ?case
  proof (cases "js = []")
    case True
    then have fl: "insert i S = {..<?cnt}" using Cons.prems(9) by simp
    have e: "rx_feed (zip (map (rx_frag sid sq bs) (i # js)) ts) st = ?st1"
      unfolding feed by (simp add: True rx_feed_def)
    have "rx_calls ?st1 = rx_calls st @ fanout (g_subs st) bs"
      using step by (simp only: fl if_True)
    then show ?thesis by (simp only: e)
  next
    case False
    obtain x where x: "x \<in> set js" using False by (cases js) auto
    have xi: "x \<noteq> i" using x Cons.prems(1) by auto
    have xs: "x \<notin> S" using x Cons.prems(3) by auto
    have xc: "x \<in> {..<?cnt}" using x Cons.prems(2) by auto
    have nf: "insert i S \<noteq> {..<?cnt}"
    proof
      assume "insert i S = {..<?cnt}"
      then have "x \<in> insert i S" using xc by simp
      then show False using xi xs by simp
    qed
    have s1: "g_subs ?st1 = g_subs st" "reasm_wf (g_reasm ?st1)" "rx_calls ?st1 = rx_calls st"
      "\<exists>j. collecting (sid AND 0x7FF) sq bs (insert i S) j (g_reasm ?st1)"
      using step nf by simp_all
    have "rx_calls (rx_feed (zip (map (rx_frag sid sq bs) js) ts') ?st1)
            = rx_calls ?st1 @ fanout (g_subs ?st1) bs"
    proof (rule Cons.IH[of "insert i S" ts' ?st1])
      show "distinct js" using Cons.prems(1) by simp
      show "set js \<subseteq> {..<?cnt}" using Cons.prems(2) by simp
      show "set js \<inter> insert i S = {}" using Cons.prems(1,3) by auto
      show "insert i S \<subseteq> {..<?cnt}" using i(1) Cons.prems(4) by simp
      show "length ts' = length js" using Cons.prems(5) ts by simp
      show "reasm_wf (g_reasm ?st1)" by (rule s1(2))
      show "(insert i S = {} \<and> sid_idle (sid AND 0x7FF) (g_reasm ?st1)) \<or>
            (\<exists>j. collecting (sid AND 0x7FF) sq bs (insert i S) j (g_reasm ?st1))"
        using s1(4) by simp
      show "js \<noteq> []" by (rule False)
      show "insert i S \<union> set js = {..<?cnt}" using Cons.prems(9) by simp
    qed
    then show ?thesis unfolding feed by (simp only: s1)
  qed
qed

lemma sent_msg_rx_frag:
  assumes "fst (can_bus_send_large drv (Some bs) sid tx) = HAL_OK"
    and "i < (length bs + 55) div 56"
  shows "isr_rx_frame (sent_msg drv bs sid tx i) = rx_frag sid (g_seq tx) bs i"
proof -
  let ?R = "can_bus_send_large drv (Some bs) sid tx"
  have R: "?R = (HAL_OK, snd ?R)" using assms(1) by (cases ?R) simp
  from send_large_calls[OF R]
  have "tx_calls (snd ?R) = tx_calls tx @
           map (\<lambda>i. (tx_header_64 sid,
                      frag_wire (g_seq tx) bs (of_nat ((length bs + 55) div 56)) (of_nat i)))
             [0..<(length bs + 55) div 56]"
    by simp
  then have "sent_msg drv bs sid tx i =
      (tx_header_64 sid, frag_wire (g_seq tx) bs (of_nat ((length bs + 55) div 56)) (of_nat i))"
    using assms(2) by (simp add: sent_msg_def nth_append)
  then show ?thesis by (simp add: rx_frag_def)
qed

text \<open>Two messages sent one after the other: the second call starts from the state the
  first one leaves, with the next sequence number.\<close>

lemma send_large_handle:
  assumes "can_bus_send_large drv (Some bs) sid st = (HAL_OK, st')"
  shows "g_hfdcan st' = g_hfdcan st"
proof -
  let ?cnt = "(55 + length bs) div 56"
  let ?st1 = "st\<lparr>g_seq := g_seq st + 1\<rparr>"
  have h: "g_hfdcan st \<noteq> None" and ne: "bs \<noteq> []" and le: "\<not> length bs > 0xFFFF"
    using assms by (auto simp: can_bus_send_large_def split: if_splits)
  have c0: "?cnt \<noteq> 0" using ne by (cases bs) simp_all
  have run: "can_bus_send_large drv (Some bs) sid st =
      (if ?cnt > 255 then (HAL_ERROR, ?st1)
       else send_frags drv bs sid (g_seq st) (of_nat ?cnt) 0 0 ?st1)"
  proof -
    from h obtain y where y: "g_hfdcan st = Some y" by auto
    show ?thesis
      using ne le c0
      by (simp add: can_bus_send_large_def y Let_def CAN_BUS_FRAG_WIRE_LEN_def sizeof_hdr_def)
  qed
  have c255: "?cnt \<le> 255" using assms unfolding run by (auto split: if_splits)
  then have sf: "send_frags drv bs sid (g_seq st) (of_nat ?cnt) 0 0 ?st1 = (HAL_OK, st')"
    using assms unfolding run by simp
  have u: "unat (of_nat ?cnt :: u8) = (length bs + 55) div 56"
    using c255 by (simp add: unat_of_nat add.commute)
  have g: "g_hfdcan ?st1 \<noteq> None" using h by simp
  have z: "(0::u8) < of_nat ?cnt \<longrightarrow> (0::nat) = 56 * unat (0::u8)" by simp
  from send_frags_calls[OF g u z sf]
  show ?thesis by simp
qed

lemma tx_after_a_state: "g_seq tx_after_a = 1 \<and> g_hfdcan tx_after_a = Some 1"
  and msg_a_sent: "fst (can_bus_send_large drv_ok (Some msg_a) 3 tx_init) = HAL_OK"
proof -
  let ?R = "can_bus_send_large drv_ok (Some msg_a) 3 tx_init"
  show s: "fst ?R = HAL_OK"
    by (rule send_large_status) (simp_all add: tx_init_def drv_ok_def msg_a_def)
  then have R: "?R = (HAL_OK, tx_after_a)" by (cases ?R) (simp add: tx_after_a_def)
  from send_large_calls[OF R] send_large_handle[OF R]
  show "g_seq tx_after_a = 1 \<and> g_hfdcan tx_after_a = Some 1"
    by (simp add: tx_init_def)
qed

lemma msg_b_sent: "fst (can_bus_send_large drv_ok (Some msg_b) 3 tx_after_a) = HAL_OK"
  by (rule send_large_status) (simp_all add: tx_after_a_state drv_ok_def msg_b_def)

lemma in_flight_frames:
  "isr_rx_frame (sent_msg drv_ok msg_a 3 tx_init 0) = rx_frag 3 0 msg_a 0"
  "isr_rx_frame (sent_msg drv_ok msg_b 3 tx_after_a 0) = rx_frag 3 1 msg_b 0"
  "isr_rx_frame (sent_msg drv_ok msg_b 3 tx_after_a 1) = rx_frag 3 1 msg_b 1"
proof -
  have "isr_rx_frame (sent_msg drv_ok msg_a 3 tx_init 0) = rx_frag 3 (g_seq tx_init) msg_a 0"
    by (rule sent_msg_rx_frag[OF msg_a_sent]) (simp add: msg_a_def)
  then show "isr_rx_frame (sent_msg drv_ok msg_a 3 tx_init 0) = rx_frag 3 0 msg_a 0"
    by (simp add: tx_init_def)
  have "isr_rx_frame (sent_msg drv_ok msg_b 3 tx_after_a 0) = rx_frag 3 (g_seq tx_after_a) msg_b 0"
    by (rule sent_msg_rx_frag[OF msg_b_sent]) (simp add: msg_b_def)
  then show "isr_rx_frame (sent_msg drv_ok msg_b 3 tx_after_a 0) = rx_frag 3 1 msg_b 0"
    by (simp add: tx_after_a_state)
  have "isr_rx_frame (sent_msg drv_ok msg_b 3 tx_after_a 1) = rx_frag 3 (g_seq tx_after_a) msg_b 1"
    by (rule sent_msg_rx_frag[OF msg_b_sent]) (simp add: msg_b_def)
  then show "isr_rx_frame (sent_msg drv_ok msg_b 3 tx_after_a 1) = rx_frag 3 1 msg_b 1"
    by (simp add: tx_after_a_state)
qed

lemma in_flight_feed:
  "rx_calls (rx_feed [(rx_frag 3 0 msg_a 0, 0), (rx_frag 3 1 msg_b 0, 10),
                      (rx_frag 3 1 msg_b 1, 11)] rx_one_sub) = []"
  "rx_calls (rx_feed [(rx_frag 3 1 msg_b 0, 10), (rx_frag 3 1 msg_b 1, 11)] rx_one_sub)
     = [(1, 0, msg_b)]"
  by code_simp+

text \<open>
  From a receiver whose table is well formed and holds no active slot of the message's
  identifier (as after \<open>can_bus_init\<close>, or after earlier messages were completed), the
  round trip holds: for every buffer of 1 to 2048 bytes that \<open>can_bus_send_large\<close> sends
  successfully, feeding the receiver's frames of the emitted messages to
  \<open>handle_rx_frame\<close> in any permutation, each frame once and at any ticks, makes exactly
  one notification, and every registered subscriber is called once with exactly the
  bytes of the buffer.
\<close>

lemma frag_reasm_round_trip:
  assumes "1 \<le> length bs" and "length bs \<le> 2048"
    and "fst (can_bus_send_large drv (Some bs) sid tx) = HAL_OK"
    and "mset p = mset [0..<(length bs + 55) div 56]"
    and "length ts = length p"
    and "reasm_wf (g_reasm st)" and "sid_idle (sid AND 0x7FF) (g_reasm st)"
  shows "rx_calls (rx_feed (zip (map (\<lambda>i. isr_rx_frame (sent_msg drv bs sid tx i)) p) ts) st)
           = rx_calls st @ fanout (g_subs st) bs"
proof -
  let ?cnt = "(length bs + 55) div 56"
  have "set p = set [0..<?cnt]" by (rule mset_eq_setD[OF assms(4)])
  then have sp: "set p = {..<?cnt}" by (simp only: set_upt atLeast0LessThan)
  have dp: "distinct p" using mset_eq_imp_distinct_iff[OF assms(4)] by simp
  have "0 < ?cnt" using assms(1) by simp
  then have "0 \<in> set p" unfolding sp by simp
  then have ne: "p \<noteq> []" by (cases p) simp_all
  have m: "map (\<lambda>i. isr_rx_frame (sent_msg drv bs sid tx i)) p = map (rx_frag sid (g_seq tx) bs) p"
  proof (rule map_cong[OF refl])
    fix i assume "i \<in> set p"
    then have "i < ?cnt" unfolding sp by simp
    then show "isr_rx_frame (sent_msg drv bs sid tx i) = rx_frag sid (g_seq tx) bs i"
      by (rule sent_msg_rx_frag[OF assms(3)])
  qed
  have "rx_calls (rx_feed (zip (map (rx_frag sid (g_seq tx) bs) p) ts) st)
          = rx_calls st @ fanout (g_subs st) bs"
  proof (rule rt_feed[OF assms(1,2), of p "{}" ts st sid "g_seq tx"])
    show "distinct p" by (rule dp)
    show "set p \<subseteq> {..<?cnt}" using sp by simp
    show "set p \<inter> {} = {}" by simp
    show "{} \<subseteq> {..<?cnt}" by simp
    show "length ts = length p" by (rule assms(5))
    show "reasm_wf (g_reasm st)" by (rule assms(6))
    show "({} = {} \<and> sid_idle (sid AND 0x7FF) (g_reasm st)) \<or>
          (\<exists>j. collecting (sid AND 0x7FF) (g_seq tx) bs {} j (g_reasm st))"
      using assms(7) by simp
    show "p \<noteq> []" by (rule ne)
    show "{} \<union> set p = {..<?cnt}" using sp by simp
  qed
  then show ?thesis by (simp only: m)
qed

lemma frag_reasm_round_trip_witness:
  "1 \<le> length (replicate 150 (7 :: u8)) \<and> length (replicate 150 (7 :: u8)) \<le> 2048 \<and>
   fst (can_bus_send_large drv_ok (Some (replicate 150 7)) 3 tx_init) = HAL_OK \<and>
   mset [2, 0, 1 :: nat] = mset [0..<(length (replicate 150 (7 :: u8)) + 55) div 56] \<and>
   length [5, 6, 7 :: u32] = length [2, 0, 1 :: nat] \<and>
   reasm_wf (g_reasm rx_one_sub) \<and> sid_idle (3 AND 0x7FF) (g_reasm rx_one_sub) \<and>
   rx_calls (rx_feed (zip (map (\<lambda>i. isr_rx_frame (sent_msg drv_ok (replicate 150 7) 3 tx_init i))
                            [2, 0, 1]) [5, 6, 7]) rx_one_sub)
     = [(1, 0, replicate 150 7)]"
proof -
  have h1: "1 \<le> length (replicate 150 (7 :: u8))" "length (replicate 150 (7 :: u8)) \<le> 2048"
    by simp_all
  have h2: "fst (can_bus_send_large drv_ok (Some (replicate 150 7)) 3 tx_init) = HAL_OK"
    by (rule send_large_status) (simp_all add: tx_init_def drv_ok_def)
  have u: "[0..<(length (replicate 150 (7 :: u8)) + 55) div 56] = [0, 1, 2]"
    by (simp add: upt_rec)
  have h3: "mset [2, 0, 1 :: nat] = mset [0..<(length (replicate 150 (7 :: u8)) + 55) div 56]"
    unfolding u by simp
  have h4: "length [5, 6, 7 :: u32] = length [2, 0, 1 :: nat]" by simp
  have h5: "reasm_wf (g_reasm rx_one_sub)" "sid_idle (3 AND 0x7FF) (g_reasm rx_one_sub)"
    by (simp_all add: reasm_wf_def sid_idle_def rx_one_sub_def rx_init_def zero_slot_def
        CAN_BUS_REASM_SLOTS_def CAN_BUS_REASM_MAX_BYTES_def list_all_iff)
  have s: "fanout (g_subs rx_one_sub) (replicate 150 7) = [(1, 0, replicate 150 7)]"
    "rx_calls rx_one_sub = []"
    by (simp_all add: rx_one_sub_def rx_init_def)
  from frag_reasm_round_trip [OF h1 h2 h3 h4 h5] h1 h2 h3 h4 h5
  show ?thesis by (simp only: s append_Nil simp_thms)
qed

text \<open>
  C1: fragmenting a buffer of 1 to 2048 bytes with \<open>can_bus_send_large\<close> and feeding the
  frames to \<open>handle_rx_frame\<close>, each once, is to give exactly one notification with the
  bytes of the buffer. The code does not do this when a partial message of the same
  identifier is still in its slot. The sender transmits \<open>msg_a\<close> and then \<open>msg_b\<close> on
  identifier \<open>0x03\<close>; the receiver gets fragment 0 of \<open>msg_a\<close> (fragment 1 is lost) and
  then, within the timeout, both fragments of \<open>msg_b\<close>. Fragment 0 of \<open>msg_b\<close> takes the
  sequence-change path of \<open>reasm_get_slot\<close> (``drop partial and reuse slot''), which
  resets the slot but, unlike the two other paths, does not set \<open>active\<close>, \<open>std_id\<close>
  and \<open>seq\<close> again; fragment 1 then finds no active slot of its identifier, claims a
  slot afresh, and the count of fragment 0 is lost: no subscriber is ever called with
  \<open>msg_b\<close>. From the initialised receiver the same two frames of \<open>msg_b\<close> are
  delivered.
\<close>

theorem frag_reasm_in_flight_lost:
  "fst (can_bus_send_large drv_ok (Some msg_a) 3 tx_init) = HAL_OK \<and>
   fst (can_bus_send_large drv_ok (Some msg_b) 3 tx_after_a) = HAL_OK \<and>
   rx_calls (rx_feed [(isr_rx_frame (sent_msg drv_ok msg_a 3 tx_init 0), 0),
                      (isr_rx_frame (sent_msg drv_ok msg_b 3 tx_after_a 0), 10),
                      (isr_rx_frame (sent_msg drv_ok msg_b 3 tx_after_a 1), 11)] rx_one_sub) = [] \<and>
   rx_calls (rx_feed [(isr_rx_frame (sent_msg drv_ok msg_b 3 tx_after_a 0), 10),
                      (isr_rx_frame (sent_msg drv_ok msg_b 3 tx_after_a 1), 11)] rx_one_sub)
     = [(1, 0, msg_b)]"
  unfolding in_flight_frames
  using msg_a_sent msg_b_sent in_flight_feed by simp

subsection \<open>Fragments in the receive path\<close>


lemma buf_reasm_reset [simp]: "buf (reasm_reset s) = buf s"
  by (simp add: reasm_reset_def)









subsection \<open>Time sync\<close>

lemma s64_id: "- (2 ^ 63) \<le> k \<Longrightarrow> k < 2 ^ 63 \<Longrightarrow> s64 k = k"
  unfolding s64_def by (rule signed_take_bit_int_eq_self) simp_all

lemma s64_small:
  assumes "0 \<le> a" "a < 2 ^ 62" "0 \<le> b" "b < 2 ^ 62" "0 \<le> c" "c < 2 ^ 62" "0 \<le> d" "d < 2 ^ 62"
  shows "s64 (s64 (b - a) + s64 (c - d)) = (b - a) + (c - d)"
    and "s64 (s64 (d - a) - s64 (c - b)) = (d - a) - (c - b)"
proof -
  have e: "s64 (b - a) = b - a" "s64 (c - d) = c - d" "s64 (d - a) = d - a" "s64 (c - b) = c - b"
    using assms by (simp_all add: s64_id)
  show "s64 (s64 (b - a) + s64 (c - d)) = (b - a) + (c - d)"
    unfolding e using assms by (simp add: s64_id)
  show "s64 (s64 (d - a) - s64 (c - b)) = (d - a) - (c - b)"
    unfolding e using assms by (simp add: s64_id)
qed

lemma sint_sub_u64: "sint ((a::u64) - b) = s64 (uint a - uint b)"
proof -
  have "sint (a - b) = sint (word_of_int (uint a - uint b) :: u64)"
    by (rule arg_cong[OF word_sub_wi])
  also have "\<dots> = signed_take_bit 63 (uint a - uint b)"
    by (simp only: sint_sbintrunc') simp
  finally show ?thesis by (simp add: s64_def)
qed

lemma sint_add_u64: "sint ((a::u64) + b) = s64 (sint a + sint b)"
  unfolding s64_def by (simp add: sint_word_ariths)

lemma sint_sub_s64: "sint ((a::u64) - b) = s64 (sint a - sint b)"
  unfolding s64_def by (simp add: sint_word_ariths)

lemma sint_range64: "- (2 ^ 63) \<le> sint (a::u64) \<and> sint a < 2 ^ 63"
  using sint_ge[of a] sint_lt[of a] by simp

lemma sint_nonneg_uint: "0 \<le> sint (w::u64) \<Longrightarrow> uint w = sint w"
proof -
  assume a: "0 \<le> sint w"
  have "sint w < 2 ^ 64" using sint_range64[of w] by simp
  then have "take_bit 64 (sint w) = sint w" using a by (simp add: take_bit_int_eq_self)
  then show ?thesis using uint_sint[of w] by simp
qed

lemma sdiv_bounds:
  assumes c: "0 < (c::int)" and k: "- (2 ^ 63) \<le> k" "k < 2 ^ 63" 
  shows "- (2 ^ 63) \<le> k sdiv c \<and> k sdiv c < 2 ^ 63"
proof -
  have n: "0 \<le> \<bar>k\<bar> div c" using c by (simp add: pos_imp_zdiv_nonneg_iff)
  have d: "\<bar>k\<bar> div c \<le> \<bar>k\<bar>"
  proof (cases "k = 0")
    case True then show ?thesis by simp
  next
    case False then show ?thesis by (simp add: int_div_le_self)
  qed
  show ?thesis
  proof (cases "k < 0")
    case True
    then have "k sdiv c = - (\<bar>k\<bar> div c)" using c by (simp add: signed_divide_int_def)
    then show ?thesis using d n k True by linarith
  next
    case False
    then have "k sdiv c = \<bar>k\<bar> div c \<or> k sdiv c = 0" using c by (cases "k = 0") (simp_all add: signed_divide_int_def)
    then show ?thesis using d n k False by auto
  qed
qed

lemma sint_s64_div: "0 < sint b \<Longrightarrow> sint (s64_div a b) = sint a sdiv sint b"
  unfolding s64_div_def
  using sdiv_bounds[of "sint b" "sint a"] sint_range64[of a]
  by (simp add: sint_sbintrunc' s64_id[unfolded s64_def])

lemma offset_int:
  "sint (fst (compute_offset_delay t1 t2 t3 t4))
     = s64 (s64 (uint t2 - uint t1) + s64 (uint t3 - uint t4)) sdiv 2"
  by (simp add: compute_offset_delay_def Let_def sint_s64_div sint_add_u64 sint_sub_u64)

lemma delay_int:
  "uint (snd (compute_offset_delay t1 t2 t3 t4))
     = max 0 (s64 (s64 (uint t4 - uint t1) - s64 (uint t3 - uint t2)))"
proof -
  let ?d = "(t4 - t1) - (t3 - t2)"
  have s: "sint ?d = s64 (s64 (uint t4 - uint t1) - s64 (uint t3 - uint t2))"
    unfolding sint_sub_s64[of "t4 - t1" "t3 - t2"] sint_sub_u64[of t4 t1] sint_sub_u64[of t3 t2] ..
  show ?thesis
    unfolding s[symmetric]
    using sint_nonneg_uint[of ?d]
    by (simp add: compute_offset_delay_def Let_def word_sless_alt max_def)
qed

lemma apply_offset_cases:
  "threadx_apply_offset_ms tps off clk =
     (if \<bar>sint off\<bar> \<le> 30000
      then tx_time_set (ucast (let n = (ucast (tx_time clk) :: u64) + s64_div (off * tps) 1000
                               in if n <s 0 then 0 else n)) clk
      else clk)"
proof -
  have "(30000 <s off \<or> off <s - 30000) = (\<not> \<bar>sint off\<bar> \<le> 30000)"
    by (simp add: word_sless_alt abs_le_iff) linarith
  then show ?thesis
    by (simp add: threadx_apply_offset_ms_def Let_def tx_time_get_def)
qed

lemma tx_time_set_calls_neq: "tx_time_set_calls (tx_time_set v clk) \<noteq> tx_time_set_calls clk"
  by (simp add: tx_time_set_def)

lemma sint_ucast_u32: "sint (ucast (c::u32) :: u64) = uint c"
proof -
  have "uint c < 2 ^ 32" using uint_lt2p[of c] by simp
  then have b2: "uint c < 2 ^ 63" by simp
  have "- (2 ^ 63) \<le> (0::int)" by simp
  also have "0 \<le> uint c" by simp
  finally have b: "- (2 ^ 63) \<le> uint c" "uint c < 2 ^ 63" using b2 by simp_all
  have "sint (ucast c :: u64) = signed_take_bit 63 (uint c)"
    by (simp add: signed_ucast_eq)
  also have "\<dots> = uint c"
    using s64_id[OF b] by (simp add: s64_def)
  finally show ?thesis .
qed

lemma sint_mult_u64: "sint ((a::u64) * b) = s64 (sint a * sint b)"
  unfolding s64_def by (simp add: sint_word_ariths)

lemma clamp_uint: "uint (if (n::u64) <s 0 then 0 else n) = max 0 (sint n)"
  using sint_nonneg_uint[of n] by (simp add: word_sless_alt max_def)

lemma new_ticks_int:
  "uint (let n = (ucast (cur::u32) :: u64) + s64_div (off * tps) 1000 in if n <s 0 then 0 else n)
     = max 0 (s64 (uint cur + s64 (sint off * sint tps) sdiv 1000))"
  by (simp add: Let_def clamp_uint sint_add_u64 sint_ucast_u32 sint_s64_div sint_mult_u64
        del: max.absorb1 max.absorb2 max.absorb3 max.absorb4)

lemma apply_offset_value:
  "\<bar>sint off\<bar> \<le> 30000 \<Longrightarrow>
   threadx_apply_offset_ms tps off clk
     = tx_time_set (word_of_int (max 0 (s64 (uint (tx_time clk) + s64 (sint off * sint tps) sdiv 1000)))) clk"
proof -
  assume a: "\<bar>sint off\<bar> \<le> 30000"
  let ?n = "let n = (ucast (tx_time clk) :: u64) + s64_div (off * tps) 1000
            in if n <s 0 then 0 else n"
  have "(ucast ?n :: u32) = word_of_int (uint ?n)" by (rule ucast_eq)
  then have "(ucast ?n :: u32)
      = word_of_int (max 0 (s64 (uint (tx_time clk) + s64 (sint off * sint tps) sdiv 1000)))"
    by (simp only: new_ticks_int)
  then show ?thesis using a by (simp only: apply_offset_cases if_True)
qed

lemma ticks_no_wrap:
  assumes o: "\<bar>k\<bar> \<le> 30000" and t: "0 \<le> t" "t \<le> 1000000" and c: "0 \<le> c" "c < 2 ^ 32"
  shows "s64 (c + s64 (k * t) sdiv 1000) = c + (k * t) sdiv 1000"
proof -
  have "\<bar>k * t\<bar> \<le> 30000 * 1000000"
    unfolding abs_mult using o t by (intro mult_mono) simp_all
  then have p: "- (2 ^ 63) \<le> k * t" "k * t < 2 ^ 63" "\<bar>k * t\<bar> \<le> 30000000000" by simp_all
  then have e: "s64 (k * t) = k * t" by (simp add: s64_id)
  have "\<bar>(k * t) sdiv 1000\<bar> = \<bar>k * t\<bar> div 1000"
  proof -
    have "0 \<le> \<bar>k * t\<bar> div 1000" by (simp add: pos_imp_zdiv_nonneg_iff)
    then show ?thesis by (simp add: signed_divide_int_def abs_mult sgn_if)
  qed
  also have "\<dots> \<le> 30000000000 div 1000"
    using p(3) by (rule zdiv_mono1) simp
  finally have d: "\<bar>(k * t) sdiv 1000\<bar> \<le> 30000000" by simp
  have "- (2 ^ 63) \<le> c + (k * t) sdiv 1000" "c + (k * t) sdiv 1000 < 2 ^ 63"
    using d c by simp_all
  then show ?thesis unfolding e by (simp add: s64_id)
qed

text \<open>
  C3: for a time-sync reply with \<open>t1\<close>, \<open>t2\<close>, \<open>t3\<close> and the receive time \<open>t4\<close>, the
  offset is \<open>((t2 - t1) + (t3 - t4)) / 2\<close> and the delay is
  \<open>max 0 ((t4 - t1) - (t3 - t2))\<close>, in 64-bit signed arithmetic: every difference and
  sum is wrapped into the range of \<open>int64_t\<close> and the division truncates; for timestamps
  below \<open>2^62\<close> nothing wraps. The clock is written if and only if
  \<open>|offset| \<le> 30000\<close>; otherwise it is left as it is. When it is written, \<open>tx_time_set\<close>
  is called once, with the low 32 bits of \<open>max 0 (cur + (offset * tps) / 1000)\<close>, where
  \<open>cur\<close> is the tick count read by \<open>tx_time_get\<close>, the product and the sum are wrapped
  into the range of \<open>int64_t\<close> and the division truncates; for a tick rate of at most
  \<open>1000000\<close> ticks per second nothing wraps before the cut to 32 bits.
\<close>

theorem timesync_offset_delay:
  "sint (fst (compute_offset_delay t1 t2 t3 t4))
     = s64 (s64 (uint t2 - uint t1) + s64 (uint t3 - uint t4)) sdiv 2 \<and>
   uint (snd (compute_offset_delay t1 t2 t3 t4))
     = max 0 (s64 (s64 (uint t4 - uint t1) - s64 (uint t3 - uint t2))) \<and>
   (uint t1 < 2 ^ 62 \<and> uint t2 < 2 ^ 62 \<and> uint t3 < 2 ^ 62 \<and> uint t4 < 2 ^ 62 \<longrightarrow>
      sint (fst (compute_offset_delay t1 t2 t3 t4))
        = ((uint t2 - uint t1) + (uint t3 - uint t4)) sdiv 2 \<and>
      uint (snd (compute_offset_delay t1 t2 t3 t4))
        = max 0 ((uint t4 - uint t1) - (uint t3 - uint t2))) \<and>
   ((tx_time_set_calls (on_timesync_response tps t1 t2 t3 t4 clk) \<noteq> tx_time_set_calls clk)
      = (\<bar>sint (fst (compute_offset_delay t1 t2 t3 t4))\<bar> \<le> 30000)) \<and>
   (\<not> \<bar>sint (fst (compute_offset_delay t1 t2 t3 t4))\<bar> \<le> 30000 \<longrightarrow>
      on_timesync_response tps t1 t2 t3 t4 clk = clk) \<and>
   (\<bar>sint (fst (compute_offset_delay t1 t2 t3 t4))\<bar> \<le> 30000 \<longrightarrow>
      tx_time (on_timesync_response tps t1 t2 t3 t4 clk)
        = word_of_int (max 0 (s64 (uint (tx_time clk)
            + s64 (sint (fst (compute_offset_delay t1 t2 t3 t4)) * sint tps) sdiv 1000))) \<and>
      tx_time_set_calls (on_timesync_response tps t1 t2 t3 t4 clk)
        = tx_time_set_calls clk @ [tx_time (on_timesync_response tps t1 t2 t3 t4 clk)]) \<and>
   (\<bar>sint (fst (compute_offset_delay t1 t2 t3 t4))\<bar> \<le> 30000 \<and>
    0 \<le> sint tps \<and> sint tps \<le> 1000000 \<longrightarrow>
      tx_time (on_timesync_response tps t1 t2 t3 t4 clk)
        = word_of_int (max 0 (uint (tx_time clk)
            + (sint (fst (compute_offset_delay t1 t2 t3 t4)) * sint tps) sdiv 1000)))"
proof -
  let ?o = "sint (fst (compute_offset_delay t1 t2 t3 t4))"
  let ?r = "on_timesync_response tps t1 t2 t3 t4 clk"
  have b: "uint t1 < 2 ^ 62 \<and> uint t2 < 2 ^ 62 \<and> uint t3 < 2 ^ 62 \<and> uint t4 < 2 ^ 62 \<Longrightarrow>
      s64 (s64 (uint t2 - uint t1) + s64 (uint t3 - uint t4))
        = (uint t2 - uint t1) + (uint t3 - uint t4) \<and>
      s64 (s64 (uint t4 - uint t1) - s64 (uint t3 - uint t2))
        = (uint t4 - uint t1) - (uint t3 - uint t2)"
    using s64_small[of "uint t1" "uint t2" "uint t3" "uint t4"] by simp
  have c: "(tx_time_set_calls ?r \<noteq> tx_time_set_calls clk) = (\<bar>?o\<bar> \<le> 30000)"
    by (simp add: on_timesync_response_def apply_offset_cases tx_time_set_calls_neq)
  have e: "\<not> \<bar>?o\<bar> \<le> 30000 \<Longrightarrow> ?r = clk"
    by (simp add: on_timesync_response_def apply_offset_cases)
  have v: "\<bar>?o\<bar> \<le> 30000 \<Longrightarrow>
      ?r = tx_time_set (word_of_int (max 0 (s64 (uint (tx_time clk)
             + s64 (?o * sint tps) sdiv 1000)))) clk"
    unfolding on_timesync_response_def by (rule apply_offset_value)
  have v1: "\<bar>?o\<bar> \<le> 30000 \<Longrightarrow>
      tx_time ?r = word_of_int (max 0 (s64 (uint (tx_time clk) + s64 (?o * sint tps) sdiv 1000)))"
    using v by (simp add: tx_time_set_def)
  have v2: "\<bar>?o\<bar> \<le> 30000 \<Longrightarrow>
      tx_time_set_calls ?r = tx_time_set_calls clk @ [tx_time ?r]"
    using v by (simp add: tx_time_set_def)
  have w: "\<bar>?o\<bar> \<le> 30000 \<and> 0 \<le> sint tps \<and> sint tps \<le> 1000000 \<Longrightarrow>
      tx_time ?r = word_of_int (max 0 (uint (tx_time clk) + (?o * sint tps) sdiv 1000))"
    using v1 ticks_no_wrap[of ?o "sint tps" "uint (tx_time clk)"] uint_lt2p[of "tx_time clk"]
    by simp
  show ?thesis
    using b c e v1 v2 w offset_int[of t1 t2 t3 t4] delay_int[of t1 t2 t3 t4] by simp
qed

theorem timesync_offset_delay_witness:
  "uint (10000 :: u64) < 2 ^ 62 \<and> uint (10100 :: u64) < 2 ^ 62 \<and> uint (10110 :: u64) < 2 ^ 62 \<and>
   uint (10020 :: u64) < 2 ^ 62 \<and>
   sint (fst (compute_offset_delay 10000 10100 10110 10020)) = 95 \<and>
   uint (snd (compute_offset_delay 10000 10100 10110 10020)) = 10 \<and>
   0 \<le> sint (100 :: u64) \<and> sint (100 :: u64) \<le> 1000000 \<and>
   tx_time (on_timesync_response 100 10000 10100 10110 10020
        \<lparr>tx_time = 1002, tx_time_set_calls = []\<rparr>) = 1011 \<and>
   tx_time_set_calls (on_timesync_response 100 10000 10100 10110 10020
        \<lparr>tx_time = 1002, tx_time_set_calls = []\<rparr>) = [1011] \<and>
   sint (fst (compute_offset_delay 10100 10000 10020 10110)) = - 95 \<and>
   tx_time_set_calls (on_timesync_response 100 10100 10000 10020 10110
        \<lparr>tx_time = 5, tx_time_set_calls = []\<rparr>) = [0] \<and>
   \<not> \<bar>sint (fst (compute_offset_delay 0 100000 100000 0))\<bar> \<le> 30000 \<and>
   on_timesync_response 100 0 100000 100000 0 \<lparr>tx_time = 1002, tx_time_set_calls = []\<rparr>
     = \<lparr>tx_time = 1002, tx_time_set_calls = []\<rparr>"
proof -
  let ?c = "\<lparr>tx_time = 1002, tx_time_set_calls = []\<rparr>"
  let ?d = "\<lparr>tx_time = 5, tx_time_set_calls = []\<rparr>"
  have h: "uint (10000 :: u64) < 2 ^ 62 \<and> uint (10100 :: u64) < 2 ^ 62 \<and>
           uint (10110 :: u64) < 2 ^ 62 \<and> uint (10020 :: u64) < 2 ^ 62"
    by simp
  have k: "uint (0 :: u64) < 2 ^ 62 \<and> uint (100000 :: u64) < 2 ^ 62" by simp
  have t: "0 \<le> sint (100 :: u64) \<and> sint (100 :: u64) \<le> 1000000" "sint (100 :: u64) = 100"
    by simp_all
  note A = timesync_offset_delay [of 10000 10100 10110 10020 100 ?c]
  note B = timesync_offset_delay [of 10100 10000 10020 10110 100 ?d]
  note C = timesync_offset_delay [of 0 100000 100000 0 100 ?c]
  have a3: "sint (fst (compute_offset_delay 10000 10100 10110 10020)) = 95 \<and>
            uint (snd (compute_offset_delay 10000 10100 10110 10020)) = 10"
    using A[THEN conjunct2, THEN conjunct2, THEN conjunct1] h
    by (simp add: signed_divide_int_def)
  have a7: "tx_time (on_timesync_response 100 10000 10100 10110 10020 ?c) = 1011"
    using A[THEN conjunct2, THEN conjunct2, THEN conjunct2, THEN conjunct2, THEN conjunct2,
            THEN conjunct2] a3 t
    by (simp add: signed_divide_int_def)
  have a6: "tx_time_set_calls (on_timesync_response 100 10000 10100 10110 10020 ?c) = [1011]"
    using A[THEN conjunct2, THEN conjunct2, THEN conjunct2, THEN conjunct2, THEN conjunct2,
            THEN conjunct1] a3 a7
    by simp
  have b3: "sint (fst (compute_offset_delay 10100 10000 10020 10110)) = - 95"
    using B[THEN conjunct2, THEN conjunct2, THEN conjunct1] h
    by (simp add: signed_divide_int_def)
  have b7: "tx_time (on_timesync_response 100 10100 10000 10020 10110 ?d) = 0"
    using B[THEN conjunct2, THEN conjunct2, THEN conjunct2, THEN conjunct2, THEN conjunct2,
            THEN conjunct2] b3 t
    by (simp add: signed_divide_int_def)
  have b6: "tx_time_set_calls (on_timesync_response 100 10100 10000 10020 10110 ?d) = [0]"
    using B[THEN conjunct2, THEN conjunct2, THEN conjunct2, THEN conjunct2, THEN conjunct2,
            THEN conjunct1] b3 b7
    by simp
  have c3: "sint (fst (compute_offset_delay 0 100000 100000 0)) = 100000"
    using C[THEN conjunct2, THEN conjunct2, THEN conjunct1] k
    by (simp add: signed_divide_int_def)
  have c5: "on_timesync_response 100 0 100000 100000 0 ?c = ?c"
    using C[THEN conjunct2, THEN conjunct2, THEN conjunct2, THEN conjunct2, THEN conjunct1] c3
    by simp
  show ?thesis
    using h t(1) a3 a7 a6 b3 b6 c3 c5 by simp
qed

end
